theory Spec2Isabelle
  imports Main "HOL-Library.Word"
begin

section \<open>Failures\<close>

text \<open>
  \<open>IT_ASSERT\<close> throws when its condition is false; an element access outside a
  vector and an integer division by zero have no defined behaviour in C++. All three are
  results of the model, never hidden in an unspecified value.
\<close>

datatype error = AssertionFailed | OutOfRange | DivisionByZero

section \<open>Utilities: broadcast and axis normalisation (utils/operator_utils)\<close>

text \<open>
  A \<open>Shape\<close> is a vector of C++ \<open>int\<close>. \<open>infer_broadcast\<close> reads each dimension
  into a \<open>size_t\<close>, compares the two \<open>size_t\<close> values with each other and with 1, and
  writes one of them back into an \<open>int\<close>. The conversion \<open>int \<rightarrow> size_t\<close> is injective
  and maps 1 to 1, and converting back returns the \<open>int\<close> that was read, so the
  comparisons and the result are those of the \<open>int\<close> values themselves. The loop runs
  over \<open>i = 0, \<dots>, maxRank - 1\<close> and writes position \<open>maxRank - 1 - i\<close>; the result
  vector starts as \<open>maxRank\<close> zeros.
\<close>

type_synonym Shape = "int list"

fun infer_broadcast_loop :: "Shape \<Rightarrow> Shape \<Rightarrow> nat \<Rightarrow> nat list \<Rightarrow> Shape \<Rightarrow> error + Shape" where
  "infer_broadcast_loop A B maxRank [] result = Inr result"
| "infer_broadcast_loop A B maxRank (i # rest) result =
     (let rankA = length A; rankB = length B;
          dimA = (if i < rankA then A ! (rankA - 1 - i) else 1);
          dimB = (if i < rankB then B ! (rankB - 1 - i) else 1)
      in if dimA = dimB then
           infer_broadcast_loop A B maxRank rest (result[maxRank - 1 - i := dimA])
         else if dimA = 1 then
           infer_broadcast_loop A B maxRank rest (result[maxRank - 1 - i := dimB])
         else if dimB = 1 then
           infer_broadcast_loop A B maxRank rest (result[maxRank - 1 - i := dimA])
         else Inl AssertionFailed)"

definition infer_broadcast :: "Shape \<Rightarrow> Shape \<Rightarrow> error + Shape" where
  "infer_broadcast A B =
     (let maxRank = max (length A) (length B)
      in infer_broadcast_loop A B maxRank [0..<maxRank] (replicate maxRank 0))"

definition get_real_axis :: "int \<Rightarrow> int \<Rightarrow> error + int" where
  "get_real_axis axis rank =
     (if \<not> rank \<ge> 1 then Inl AssertionFailed
      else if \<not> (axis \<ge> - rank \<and> axis \<le> rank - 1) then Inl AssertionFailed
      else Inr (if axis < 0 then rank + axis else axis))"

subsection \<open>The broadcast rule in the words of the specification\<close>

text \<open>
  The shorter shape is padded on the left with 1s; two dimensions are compatible when
  they are equal or one of them is 1. \<open>broadcast_spec\<close> takes the maximum of the two
  dimensions, as the specification words it; \<open>broadcast_dim\<close> is the dimension that
  is not 1. \<open>dim_from_right A i\<close> is the \<open>i\<close>-th dimension of \<open>A\<close> counted from
  the right, 1 beyond its rank.
\<close>

definition pad_left :: "nat \<Rightarrow> Shape \<Rightarrow> Shape" where
  "pad_left n s = replicate (n - length s) 1 @ s"

definition broadcastable :: "int \<Rightarrow> int \<Rightarrow> bool" where
  "broadcastable a b = (a = b \<or> a = 1 \<or> b = 1)"

definition broadcast_dim :: "int \<Rightarrow> int \<Rightarrow> int" where
  "broadcast_dim a b = (if a = 1 then b else a)"

definition broadcast_spec :: "Shape \<Rightarrow> Shape \<Rightarrow> error + Shape" where
  "broadcast_spec A B =
     (let n = max (length A) (length B); A' = pad_left n A; B' = pad_left n B
      in if list_all2 broadcastable A' B' then Inr (map2 max A' B') else Inl AssertionFailed)"

definition dim_from_right :: "Shape \<Rightarrow> nat \<Rightarrow> int" where
  "dim_from_right A i = (if i < length A then A ! (length A - 1 - i) else 1)"

section \<open>MatMul shape inference (operators/matmul.cc)\<close>

text \<open>
  \<open>MatmulObj::inferShape\<close> reads the shapes of its two inputs and the two flags of the
  operator; it returns a one-element vector of shapes.
\<close>

definition MatmulObj_inferShape :: "bool \<Rightarrow> bool \<Rightarrow> Shape \<Rightarrow> Shape \<Rightarrow> error + Shape list" where
  "MatmulObj_inferShape transA transB shapeA shapeB =
     (if \<not> (length shapeA \<ge> 2 \<and> length shapeB \<ge> 2) then Inl AssertionFailed
      else
        let rankA = length shapeA; rankB = length shapeB;
            dimA_m = (if transA then shapeA ! (rankA - 1) else shapeA ! (rankA - 2));
            dimA_k = (if transA then shapeA ! (rankA - 2) else shapeA ! (rankA - 1));
            dimB_k = (if transB then shapeB ! (rankB - 1) else shapeB ! (rankB - 2));
            dimB_n = (if transB then shapeB ! (rankB - 2) else shapeB ! (rankB - 1))
        in if \<not> dimA_k = dimB_k then Inl AssertionFailed
           else
             let batchA = take (rankA - 2) shapeA;
                 batchB = take (rankB - 2) shapeB
             in case infer_broadcast batchA batchB of
                  Inl e \<Rightarrow> Inl e
                | Inr batchResult \<Rightarrow> Inr [batchResult @ [dimA_m, dimB_n]])"

section \<open>Concat (operators/concat.cc)\<close>

text \<open>
  The constructor and \<open>inferShape\<close> read nothing of the input tensors but their shapes,
  so the inputs are given as the list of their shapes. \<open>OperatorObj::checkValid\<close>, which
  the constructor asserts last, is not part of the sources at hand: it is the parameter
  \<open>checkValid\<close>, applied to the operator as constructed so far. Reading \<open>inputs[0]\<close>
  of an empty vector, or a dimension outside a shape, is \<open>OutOfRange\<close>.

  A dimension is a C++ \<open>int\<close>, 32 bits wide and signed: \<open>int32_range\<close> holds of the
  values it can take. The \<open>+=\<close> of \<open>inferShape\<close> is the addition of two such values;
  where the sum leaves the range it wraps around (two's complement), which is
  \<open>wrap_int32\<close> of the sum.
\<close>

definition int32_range :: "int \<Rightarrow> bool" where
  "int32_range x = (- 2147483648 \<le> x \<and> x \<le> 2147483647)"

definition wrap_int32 :: "int \<Rightarrow> int" where
  "wrap_int32 x = (x + 2147483648) mod 4294967296 - 2147483648"

record ConcatObj =
  concat_inputs :: "Shape list"
  concat_dim :: int

definition ConcatObj_new :: "(ConcatObj \<Rightarrow> bool) \<Rightarrow> Shape list \<Rightarrow> int \<Rightarrow> error + ConcatObj" where
  "ConcatObj_new checkValid inps d =
     (case inps of
        [] \<Rightarrow> Inl OutOfRange
      | first # _ \<Rightarrow>
          (let rank = int (length first)
           in case get_real_axis d rank of
                Inl e \<Rightarrow> Inl e
              | Inr newAxis \<Rightarrow>
                  (let obj = \<lparr>concat_inputs = inps, concat_dim = newAxis\<rparr>
                   in if checkValid obj then Inr obj else Inl AssertionFailed)))"

fun concat_sum_loop :: "int \<Rightarrow> Shape list \<Rightarrow> Shape \<Rightarrow> error + Shape" where
  "concat_sum_loop d [] dims = Inr dims"
| "concat_sum_loop d (s # rest) dims =
     (if 0 \<le> d \<and> nat d < length dims \<and> nat d < length s
      then concat_sum_loop d rest (dims[nat d := wrap_int32 (dims ! nat d + s ! nat d)])
      else Inl OutOfRange)"

definition ConcatObj_inferShape :: "ConcatObj \<Rightarrow> Shape list \<Rightarrow> error + Shape list" where
  "ConcatObj_inferShape obj inps =
     (case inps of
        [] \<Rightarrow> Inl OutOfRange
      | first # others \<Rightarrow>
          (case concat_sum_loop (concat_dim obj) others first of
             Inl e \<Rightarrow> Inl e
           | Inr dims \<Rightarrow> Inr [dims]))"

section \<open>Allocator (core/allocator.cc)\<close>

text \<open>
  \<open>size_t\<close> is a 64-bit unsigned integer (the alignment is \<open>sizeof(uint64_t)\<close>), so
  every sum, difference and product below wraps modulo \<open>2 ^ 64\<close>, and \<open><\<close> on words is
  the unsigned comparison. \<open>ptr\<close> is the address held by the \<open>void *\<close>; 0 is
  \<open>nullptr\<close>.

  \<open>freeBlocks\<close> is a \<open>std::map<size_t, size_t>\<close> from offset to size. It is kept as
  the list of its entries in iteration order, that is by increasing key; the operations
  of \<open>std::map\<close> that the allocator uses are written out on that list.
\<close>

type_synonym size_t = "64 word"
type_synonym block = "size_t \<times> size_t"

fun map_put :: "size_t \<Rightarrow> size_t \<Rightarrow> block list \<Rightarrow> block list" where
  "map_put k v [] = [(k, v)]"
| "map_put k v ((k', v') # rest) =
     (if k < k' then (k, v) # (k', v') # rest
      else if k = k' then (k, v) # rest
      else (k', v') # map_put k v rest)"

fun map_erase :: "size_t \<Rightarrow> block list \<Rightarrow> block list" where
  "map_erase k [] = []"
| "map_erase k ((k', v') # rest) = (if k = k' then rest else (k', v') # map_erase k rest)"

definition map_next :: "size_t \<Rightarrow> block list \<Rightarrow> block option" where
  "map_next k m = find (\<lambda>b. k < fst b) m"

definition map_prev :: "size_t \<Rightarrow> block list \<Rightarrow> block option" where
  "map_prev k m = (case filter (\<lambda>b. fst b < k) m of [] \<Rightarrow> None | b # bs \<Rightarrow> Some (last (b # bs)))"

record Allocator =
  used :: size_t
  peak :: size_t
  alignment :: size_t
  ptr :: "64 word"
  freeBlocks :: "block list"

definition Allocator_new :: Allocator where
  "Allocator_new = \<lparr>used = 0, peak = 0, alignment = 8, ptr = 0, freeBlocks = []\<rparr>"

definition getAlignedSize :: "Allocator \<Rightarrow> size_t \<Rightarrow> size_t" where
  "getAlignedSize a sz = ((sz - 1) div alignment a + 1) * alignment a"

text \<open>
  \<open>alloc\<close> and \<open>free\<close> return the outcome of the call together with the allocator
  after it, so that what a failed call leaves behind is part of the result.
\<close>

definition alloc :: "Allocator \<Rightarrow> size_t \<Rightarrow> (error + size_t) \<times> Allocator" where
  "alloc a sz =
     (if \<not> ptr a = 0 then (Inl AssertionFailed, a)
      else if alignment a = 0 then (Inl DivisionByZero, a)
      else
        let asz = getAlignedSize a sz in
        if freeBlocks a \<noteq> [] \<and> fst (last (freeBlocks a)) + snd (last (freeBlocks a)) = peak a
        then
          (let lastBlock = last (freeBlocks a) in
           if snd lastBlock \<ge> asz then
             (let addr = fst lastBlock; blockSize = snd lastBlock;
                  fb = butlast (freeBlocks a);
                  fb' = (if blockSize > asz then map_put (addr + asz) (blockSize - asz) fb else fb)
              in (Inr addr, a\<lparr>freeBlocks := fb', used := used a + asz\<rparr>))
           else
             (let addr = fst lastBlock; additionalSize = asz - snd lastBlock;
                  fb = butlast (freeBlocks a)
              in (Inr addr, a\<lparr>freeBlocks := fb, peak := peak a + additionalSize,
                               used := used a + asz\<rparr>)))
        else
          (case find (\<lambda>b. snd b \<ge> asz) (freeBlocks a) of
             Some it \<Rightarrow>
               (let addr = fst it; blockSize = snd it;
                    fb = map_erase addr (freeBlocks a);
                    fb' = (if blockSize > asz then map_put (addr + asz) (blockSize - asz) fb else fb)
                in (Inr addr, a\<lparr>freeBlocks := fb', used := used a + asz\<rparr>))
           | None \<Rightarrow>
               (Inr (peak a), a\<lparr>peak := peak a + asz, used := used a + asz\<rparr>)))"

text \<open>
  The two merging steps of \<open>free\<close>. \<open>merge_next\<close>: \<open>next\<close> is the entry after
  the one just stored at \<open>addr\<close>; if it starts at \<open>addr + size\<close> it is erased and its
  size is added to the entry at \<open>addr\<close>. The step returns the grown size and the map.
  \<open>merge_prev\<close>: \<open>prev\<close> is the entry before the one at \<open>addr\<close>; if it ends at
  \<open>addr\<close> it grows by the size and the entry at \<open>addr\<close> is erased.
\<close>

definition merge_next :: "size_t \<Rightarrow> size_t \<Rightarrow> block list \<Rightarrow> size_t \<times> block list" where
  "merge_next addr asz fb =
     (case map_next addr fb of
        Some nxt \<Rightarrow>
          if addr + asz = fst nxt
          then (asz + snd nxt, map_put addr (asz + snd nxt) (map_erase (fst nxt) fb))
          else (asz, fb)
      | None \<Rightarrow> (asz, fb))"

definition merge_prev :: "size_t \<Rightarrow> size_t \<Rightarrow> block list \<Rightarrow> block list" where
  "merge_prev addr asz fb =
     (case map_prev addr fb of
        Some prv \<Rightarrow>
          if fst prv + snd prv = addr
          then map_erase addr (map_put (fst prv) (snd prv + asz) fb)
          else fb
      | None \<Rightarrow> fb)"

definition free :: "Allocator \<Rightarrow> size_t \<Rightarrow> size_t \<Rightarrow> (error + unit) \<times> Allocator" where
  "free a addr sz =
     (if \<not> ptr a = 0 then (Inl AssertionFailed, a)
      else if alignment a = 0 then (Inl DivisionByZero, a)
      else
        let asz = getAlignedSize a sz;
            fb1 = map_put addr asz (freeBlocks a);
            (asz2, fb2) = merge_next addr asz fb1;
            fb3 = merge_prev addr asz2 fb2
        in (Inr (), a\<lparr>used := used a - asz, freeBlocks := fb3\<rparr>))"

text \<open>
  Modelled from the spec: the runtime collaborator, whose \<open>alloc(bytes)\<close> returns a
  pointer. Its sources are not at hand. The runtime is the log of the sizes it was asked
  for; the address it hands out is the parameter \<open>place\<close>. The \<open>printf\<close> of
  \<open>getPtr\<close> writes to the console only.
\<close>

record Runtime =
  requested :: "size_t list"

definition runtime_alloc ::
  "(Runtime \<Rightarrow> size_t \<Rightarrow> 64 word) \<Rightarrow> Runtime \<Rightarrow> size_t \<Rightarrow> 64 word \<times> Runtime" where
  "runtime_alloc place rt n = (place rt n, rt\<lparr>requested := requested rt @ [n]\<rparr>)"

definition getPtr ::
  "(Runtime \<Rightarrow> size_t \<Rightarrow> 64 word) \<Rightarrow> Runtime \<Rightarrow> Allocator \<Rightarrow> 64 word \<times> Runtime \<times> Allocator" where
  "getPtr place rt a =
     (if ptr a = 0
      then (let (p, rt') = runtime_alloc place rt (peak a) in (p, rt', a\<lparr>ptr := p\<rparr>))
      else (ptr a, rt, a))"

subsection \<open>The free-list invariants and the words of the specification\<close>

text \<open>
  The invariants of the arena: the alignment is 8; the free blocks lie in increasing
  offset order, pairwise disjoint and not adjacent (each ends strictly before the next
  begins); each ends at or below \<open>peak\<close>; every offset and size is a multiple of the
  alignment.
\<close>

definition block_before :: "block \<Rightarrow> block \<Rightarrow> bool" where
  "block_before b1 b2 = (unat (fst b1) + unat (snd b1) < unat (fst b2))"

definition free_list_inv :: "Allocator \<Rightarrow> bool" where
  "free_list_inv a =
     (alignment a = 8 \<and>
      sorted_wrt block_before (freeBlocks a) \<and>
      (\<forall>b\<in>set (freeBlocks a). unat (fst b) + unat (snd b) \<le> unat (peak a)) \<and>
      (\<forall>b\<in>set (freeBlocks a). 8 dvd unat (fst b) \<and> 8 dvd unat (snd b)))"

text \<open>
  Carving \<open>size\<close> bytes from the low end of block \<open>b\<close>: the free-list is as before,
  except that \<open>b\<close> is replaced by what remains of it, if anything remains.
\<close>

definition carve :: "block \<Rightarrow> size_t \<Rightarrow> block list \<Rightarrow> block list" where
  "carve b asz fb =
     concat (map (\<lambda>b'. if b' = b
                        then (if asz < snd b then [(fst b + asz, snd b - asz)] else [])
                        else [b']) fb)"

text \<open>
  A request to free \<open>(addr, size)\<close> is for a live block when the block lies inside the
  arena, meets no free block, and no free block starts at \<open>addr\<close>.
\<close>

definition live_block :: "Allocator \<Rightarrow> size_t \<Rightarrow> size_t \<Rightarrow> bool" where
  "live_block a addr asz =
     (unat addr + unat asz \<le> unat (peak a) \<and>
      (\<forall>b\<in>set (freeBlocks a).
          unat (fst b) + unat (snd b) \<le> unat addr \<or> unat addr + unat asz \<le> unat (fst b)) \<and>
      (\<forall>b\<in>set (freeBlocks a). fst b \<noteq> addr))"

text \<open>
  The neighbours of the block \<open>(addr, size)\<close> in the words of the specification: the
  right neighbour is a free block that starts at \<open>addr + size\<close>, the left neighbour a
  free block that ends at \<open>addr\<close>. \<open>coalesced\<close> is the freed block joined with the
  neighbours that exist.
\<close>

definition right_neighbor :: "block list \<Rightarrow> size_t \<Rightarrow> size_t \<Rightarrow> block option" where
  "right_neighbor fb addr asz = find (\<lambda>b. fst b = addr + asz) fb"

definition left_neighbor :: "block list \<Rightarrow> size_t \<Rightarrow> block option" where
  "left_neighbor fb addr = find (\<lambda>b. fst b + snd b = addr) fb"

definition coalesced :: "block list \<Rightarrow> size_t \<Rightarrow> size_t \<Rightarrow> block" where
  "coalesced fb addr asz =
     (let l = left_neighbor fb addr; r = right_neighbor fb addr asz
      in ((case l of Some b \<Rightarrow> fst b | None \<Rightarrow> addr),
          (case l of Some b \<Rightarrow> snd b | None \<Rightarrow> 0) + asz + (case r of Some b \<Rightarrow> snd b | None \<Rightarrow> 0)))"

section \<open>Tensors, operators and the graph (core/graph.h, core/graph.cc)\<close>

text \<open>
  Tensors and operators are objects shared by reference: a tensor is reached from the
  graph's tensor list, from the inputs and outputs of operators, and an operator from the
  graph's operator list and from the \<open>source\<close>, \<open>targets\<close>, \<open>predecessors\<close> and
  \<open>successors\<close> of other objects. The model keeps them in a store: a reference is the
  identity of an object (a natural number), \<open>theap\<close> and \<open>oheap\<close> give the object a
  reference designates, and a mutation through one reference is seen through every other.
  References in vectors are never null; an absent \<open>source\<close> is \<open>None\<close>.

  Modelled from the spec: the classes \<open>TensorObj\<close> and \<open>OperatorObj\<close> and the
  enumeration of operator kinds are declared outside the sources at hand. A tensor has a
  shape, a \<open>fuid\<close>, a \<open>source\<close> (the producing operator, or none) and \<open>targets\<close> (the
  consuming operators, an ordered sequence in insertion order). An operator has a kind, an
  ordered input list, an ordered output list, \<open>predecessors\<close> and \<open>successors\<close>, and the
  attributes of its kind: \<open>transA\<close> and \<open>transB\<close> for MatMul, \<open>permute\<close> for Transpose.
\<close>

datatype OpType = MatMul | Transpose | Concat | Unknown

record TensorObj =
  dims :: Shape
  fuid :: nat
  source :: "nat option"
  targets :: "nat list"

record OperatorObj =
  opType :: OpType
  inputs :: "nat list"
  outputs :: "nat list"
  predecessors :: "nat list"
  successors :: "nat list"
  transA :: bool
  transB :: bool
  permute :: "int list"

record Graph =
  tensors :: "nat list"
  ops :: "nat list"
  sorted_flag :: bool
  theap :: "nat \<Rightarrow> TensorObj"
  oheap :: "nat \<Rightarrow> OperatorObj"
  next_ref :: nat

text \<open>
  Modelled from the spec: the link operations of \<open>TensorObj\<close> and \<open>OperatorObj\<close> that
  the graph calls. Adding appends to the sequence; removing takes every occurrence out;
  \<open>replaceInput\<close> puts the new tensor at every position of the old one.
\<close>

definition addTarget :: "nat \<Rightarrow> nat \<Rightarrow> Graph \<Rightarrow> Graph" where
  "addTarget t op g =
     g\<lparr>theap := (theap g)(t := (theap g t)\<lparr>targets := targets (theap g t) @ [op]\<rparr>)\<rparr>"

definition removeTarget :: "nat \<Rightarrow> nat \<Rightarrow> Graph \<Rightarrow> Graph" where
  "removeTarget t op g =
     g\<lparr>theap := (theap g)(t := (theap g t)\<lparr>targets := filter (\<lambda>x. x \<noteq> op) (targets (theap g t))\<rparr>)\<rparr>"

definition setSource :: "nat \<Rightarrow> nat \<Rightarrow> Graph \<Rightarrow> Graph" where
  "setSource t op g = g\<lparr>theap := (theap g)(t := (theap g t)\<lparr>source := Some op\<rparr>)\<rparr>"

definition addPredecessors :: "nat \<Rightarrow> nat \<Rightarrow> Graph \<Rightarrow> Graph" where
  "addPredecessors op p g =
     g\<lparr>oheap := (oheap g)(op := (oheap g op)\<lparr>predecessors := predecessors (oheap g op) @ [p]\<rparr>)\<rparr>"

definition addSuccessors :: "nat \<Rightarrow> nat \<Rightarrow> Graph \<Rightarrow> Graph" where
  "addSuccessors op s g =
     g\<lparr>oheap := (oheap g)(op := (oheap g op)\<lparr>successors := successors (oheap g op) @ [s]\<rparr>)\<rparr>"

definition removePredecessors :: "nat \<Rightarrow> nat \<Rightarrow> Graph \<Rightarrow> Graph" where
  "removePredecessors op p g =
     g\<lparr>oheap := (oheap g)(op := (oheap g op)
        \<lparr>predecessors := filter (\<lambda>x. x \<noteq> p) (predecessors (oheap g op))\<rparr>)\<rparr>"

definition removeSuccessors :: "nat \<Rightarrow> nat \<Rightarrow> Graph \<Rightarrow> Graph" where
  "removeSuccessors op s g =
     g\<lparr>oheap := (oheap g)(op := (oheap g op)
        \<lparr>successors := filter (\<lambda>x. x \<noteq> s) (successors (oheap g op))\<rparr>)\<rparr>"

definition replaceInput :: "nat \<Rightarrow> nat \<Rightarrow> nat \<Rightarrow> Graph \<Rightarrow> Graph" where
  "replaceInput op t1 t2 g =
     g\<lparr>oheap := (oheap g)(op := (oheap g op)
        \<lparr>inputs := map (\<lambda>t. if t = t1 then t2 else t) (inputs (oheap g op))\<rparr>)\<rparr>"

text \<open>
  An element of a vector by index: outside the vector the access is \<open>OutOfRange\<close>.
\<close>

definition at :: "'a list \<Rightarrow> nat \<Rightarrow> error + 'a" where
  "at xs i = (if i < length xs then Inr (xs ! i) else Inl OutOfRange)"

subsection \<open>Construction\<close>

text \<open>
  Modelled from the spec: \<open>add-tensor\<close> creates a fresh tensor with a new \<open>fuid\<close> and
  appends it to the tensor list (the constructor of \<open>TensorObj\<close> is outside the sources
  at hand). \<open>new_operator\<close> is the allocation of an operator object by \<open>make_ref\<close>.
\<close>

definition empty_graph :: Graph where
  "empty_graph =
     \<lparr>tensors = [], ops = [], sorted_flag = False,
      theap = (\<lambda>_. \<lparr>dims = [], fuid = 0, source = None, targets = []\<rparr>),
      oheap = (\<lambda>_. \<lparr>opType = Unknown, inputs = [], outputs = [], predecessors = [],
                     successors = [], transA = False, transB = False, permute = []\<rparr>),
      next_ref = 0\<rparr>"

definition addTensor :: "Shape \<Rightarrow> Graph \<Rightarrow> nat \<times> Graph" where
  "addTensor dim g =
     (next_ref g,
      g\<lparr>theap := (theap g)(next_ref g :=
            \<lparr>dims = dim, fuid = next_ref g, source = None, targets = []\<rparr>),
        tensors := tensors g @ [next_ref g],
        next_ref := Suc (next_ref g)\<rparr>)"

definition new_operator :: "OperatorObj \<Rightarrow> Graph \<Rightarrow> nat \<times> Graph" where
  "new_operator obj g =
     (next_ref g, g\<lparr>oheap := (oheap g)(next_ref g := obj), next_ref := Suc (next_ref g)\<rparr>)"

definition addOperatorAndConnect :: "nat \<Rightarrow> Graph \<Rightarrow> Graph" where
  "addOperatorAndConnect op g =
     (let g1 = g\<lparr>sorted_flag := False, ops := ops g @ [op]\<rparr>;
          g2 = foldl (\<lambda>g input.
                  let g' = addTarget input op g
                  in case source (theap g' input) of
                       Some pred \<Rightarrow> addPredecessors op pred (addSuccessors pred op g')
                     | None \<Rightarrow> g')
                g1 (inputs (oheap g1 op));
          g3 = foldl (\<lambda>g output.
                  let g' = setSource output op g
                  in foldl (\<lambda>g succ. addSuccessors op succ (addPredecessors succ op g))
                       g' (targets (theap g' output)))
                g2 (outputs (oheap g2 op))
      in g3)"

text \<open>
  The constructor of \<open>MatmulObj\<close> (operators/matmul.cc) sets the kind, the inputs
  \<open>{A, B}\<close>, the output \<open>{C}\<close> and the two flags, and asserts
  \<open>OperatorObj::checkValid\<close>. That check is outside the sources at hand: it is the
  parameter \<open>opCheck\<close>, which sees the graph and the operator under construction.
\<close>

definition MatmulObj_new ::
  "(Graph \<Rightarrow> OperatorObj \<Rightarrow> bool) \<Rightarrow> nat \<Rightarrow> nat \<Rightarrow> nat \<Rightarrow> bool \<Rightarrow> bool \<Rightarrow> Graph
     \<Rightarrow> error + nat \<times> Graph" where
  "MatmulObj_new opCheck A B C tA tB g =
     (let obj = \<lparr>opType = MatMul, inputs = [A, B], outputs = [C], predecessors = [],
                 successors = [], transA = tA, transB = tB, permute = []\<rparr>
      in if opCheck g obj then Inr (new_operator obj g) else Inl AssertionFailed)"

text \<open>
  The check of \<open>OperatorObj::checkValid\<close> that the sources do show for MatMul: shape
  inference on the shapes of the two inputs yields the shape of the output.
\<close>

definition matmul_shape_check :: "Graph \<Rightarrow> OperatorObj \<Rightarrow> bool" where
  "matmul_shape_check g obj =
     (case (inputs obj, outputs obj) of
        ([A, B], [C]) \<Rightarrow>
          MatmulObj_inferShape (transA obj) (transB obj) (dims (theap g A)) (dims (theap g B))
            = Inr [dims (theap g C)]
      | _ \<Rightarrow> False)"

subsection \<open>Removal and check-valid\<close>

definition removeOperator :: "nat \<Rightarrow> Graph \<Rightarrow> Graph" where
  "removeOperator op g = g\<lparr>ops := remove1 op (ops g)\<rparr>"

definition removeTensor :: "nat \<Rightarrow> Graph \<Rightarrow> Graph" where
  "removeTensor t g = g\<lparr>tensors := remove1 t (tensors g)\<rparr>"

definition removeOperatorfromGraph :: "nat \<Rightarrow> Graph \<Rightarrow> Graph" where
  "removeOperatorfromGraph op g =
     (let g1 = foldl (\<lambda>g p. removeSuccessors p op g) g (predecessors (oheap g op));
          g2 = foldl (\<lambda>g s. removePredecessors s op g) g1 (successors (oheap g1 op))
      in removeOperator op g2)"

definition checkValid :: "Graph \<Rightarrow> error + bool" where
  "checkValid g =
     (if list_all (\<lambda>t.
            \<not> (targets (theap g t) = [] \<and> source (theap g t) = None) \<and>
            list_all (\<lambda>op. op \<in> set (ops g)) (targets (theap g t)) \<and>
            (case source (theap g t) of None \<Rightarrow> True | Some op \<Rightarrow> op \<in> set (ops g)))
          (tensors g) \<and>
         list_all (\<lambda>op.
            list_all (\<lambda>t. t \<in> set (tensors g)) (inputs (oheap g op)) \<and>
            list_all (\<lambda>t. t \<in> set (tensors g)) (outputs (oheap g op)) \<and>
            list_all (\<lambda>p. p \<in> set (ops g)) (predecessors (oheap g op)) \<and>
            list_all (\<lambda>s. s \<in> set (ops g)) (successors (oheap g op)))
          (ops g) \<and>
         distinct (map (\<lambda>t. fuid (theap g t)) (tensors g))
      then Inr True else Inl AssertionFailed)"

subsection \<open>Topological sort\<close>

text \<open>
  One \<open>for\<close> pass over the operator list moves every operator that is not yet flagged
  and whose inputs all have no source or a flagged source to the end of \<open>sorted\<close>; the
  flags grow during the pass. The \<open>while\<close> loop repeats the pass until \<open>sorted\<close> is as
  long as the operator list, and gives up (\<open>None\<close>) after a pass that moved nothing.
\<close>

definition input_ready :: "Graph \<Rightarrow> nat set \<Rightarrow> nat \<Rightarrow> bool" where
  "input_ready g flags input =
     (case source (theap g input) of None \<Rightarrow> True | Some p \<Rightarrow> p \<in> flags)"

fun topo_pass ::
  "Graph \<Rightarrow> nat list \<Rightarrow> nat list \<times> nat set \<times> bool \<Rightarrow> nat list \<times> nat set \<times> bool" where
  "topo_pass g [] st = st"
| "topo_pass g (op # rest) (srt, flags, modified) =
     (if op \<notin> flags \<and> list_all (input_ready g flags) (inputs (oheap g op))
      then topo_pass g rest (srt @ [op], insert op flags, True)
      else topo_pass g rest (srt, flags, modified))"

subsection \<open>The sort loop\<close>

text \<open>
  A pass only adds flags, and a pass that reports a modification has added one to an
  operator of the list it scanned: with this the \<open>while\<close> loop of \<open>topo_sort\<close>
  terminates.
\<close>

lemma topo_pass_flags:
  "topo_pass g xs (s, f, m) = (s', f', m') \<Longrightarrow>
     f \<subseteq> f' \<and> f' \<subseteq> f \<union> set xs \<and> (m' \<longrightarrow> m \<or> f \<noteq> f')"
proof (induction xs arbitrary: s f m)
  case Nil
  then show ?case by simp
next
  case (Cons x xs)
  show ?case
  proof (cases "x \<notin> f \<and> list_all (input_ready g f) (inputs (oheap g x))")
    case True
    then have "topo_pass g xs (s @ [x], insert x f, True) = (s', f', m')"
      using Cons.prems by simp
    from Cons.IH[OF this] True show ?thesis by auto
  next
    case False
    then have "topo_pass g xs (s, f, m) = (s', f', m')"
      using Cons.prems by auto
    from Cons.IH[OF this] show ?thesis by auto
  qed
qed

function topo_loop :: "Graph \<Rightarrow> nat list \<Rightarrow> nat set \<Rightarrow> nat list option" where
  "topo_loop g srt flags =
     (if length srt < length (ops g)
      then (case topo_pass g (ops g) (srt, flags, False) of
              (srt', flags', modified) \<Rightarrow>
                if \<not> modified then None else topo_loop g srt' flags')
      else Some srt)"
  by pat_completeness auto
termination
  apply (relation "measure (\<lambda>(g, srt, flags). card (set (ops g) - flags))")
   apply simp
  apply clarsimp
  apply (drule sym)
  apply (drule topo_pass_flags)
  apply (rule psubset_card_mono)
   apply simp
  apply blast
  done

declare topo_loop.simps [simp del]

definition topo_sort :: "Graph \<Rightarrow> bool \<times> Graph" where
  "topo_sort g =
     (if sorted_flag g then (True, g)
      else case topo_loop g [] {} of
             None \<Rightarrow> (False, g)
           | Some srt \<Rightarrow> (True, g\<lparr>ops := srt, sorted_flag := True\<rparr>))"


text \<open>
  What the sort is to establish: in the list \<open>s\<close>, every operator at position \<open>i\<close>
  has, for each of its inputs that has a source, that source at a position before \<open>i\<close>.
\<close>

definition topo_ordered :: "Graph \<Rightarrow> nat list \<Rightarrow> bool" where
  "topo_ordered g s =
     (\<forall>i<length s. \<forall>t\<in>set (inputs (oheap g (s ! i))). \<forall>p.
         source (theap g t) = Some p \<longrightarrow> (\<exists>j<i. s ! j = p))"

text \<open>
  \<open>depends_on g c p\<close>: operator \<open>c\<close> reads a tensor whose source is \<open>p\<close>. A dependency
  cycle is a non-empty list of operators, the first of them in the operator list, in which
  each depends on the one before it and the first depends on the last.
\<close>

definition depends_on :: "Graph \<Rightarrow> nat \<Rightarrow> nat \<Rightarrow> bool" where
  "depends_on g c p = (\<exists>t\<in>set (inputs (oheap g c)). source (theap g t) = Some p)"

fun dep_chain :: "Graph \<Rightarrow> nat list \<Rightarrow> bool" where
  "dep_chain g [] = True"
| "dep_chain g [x] = True"
| "dep_chain g (x # y # rest) = (depends_on g y x \<and> dep_chain g (y # rest))"

definition has_cycle :: "Graph \<Rightarrow> nat list \<Rightarrow> bool" where
  "has_cycle g cyc = (cyc \<noteq> [] \<and> hd cyc \<in> set (ops g) \<and> dep_chain g (cyc @ [hd cyc]))"

text \<open>
  The invariant of the sort loop: the flags are the operators emitted so far, all of them
  from the operator list, and every flagged operator depends on flagged operators only.
\<close>

definition pred_closed :: "Graph \<Rightarrow> nat set \<Rightarrow> bool" where
  "pred_closed g f = (\<forall>c\<in>f. \<forall>p. depends_on g c p \<longrightarrow> p \<in> f)"



definition pass_inv :: "Graph \<Rightarrow> nat list \<Rightarrow> nat set \<Rightarrow> bool" where
  "pass_inv g s f = (f = set s \<and> distinct s \<and> f \<subseteq> set (ops g) \<and> pred_closed g f)"

subsection \<open>Rewrite helpers\<close>

definition isInversePermutation :: "int list \<Rightarrow> int list \<Rightarrow> error + bool" where
  "isInversePermutation perm1 perm2 =
     (if length perm1 \<noteq> length perm2 then Inr False
      else if \<not> list_all (\<lambda>x. 0 \<le> x \<and> nat x < length perm2) perm1 then Inl OutOfRange
      else Inr (list_all (\<lambda>i. perm2 ! nat (perm1 ! i) = int i) [0..<length perm1]))"

fun lastTwo_prefix :: "int list \<Rightarrow> nat list \<Rightarrow> error + bool" where
  "lastTwo_prefix perm [] = Inr True"
| "lastTwo_prefix perm (i # rest) =
     (if \<not> i < length perm then Inl OutOfRange
      else if perm ! i \<noteq> int i then Inr False
      else lastTwo_prefix perm rest)"

definition isLastTwoDimTranspose :: "int list \<Rightarrow> nat \<Rightarrow> error + bool" where
  "isLastTwoDimTranspose perm rank =
     (if rank < 2 then Inr False
      else case lastTwo_prefix perm [0..<rank - 2] of
             Inl e \<Rightarrow> Inl e
           | Inr False \<Rightarrow> Inr False
           | Inr True \<Rightarrow>
               (if \<not> rank - 2 < length perm then Inl OutOfRange
                else if perm ! (rank - 2) \<noteq> int (rank - 1) then Inr False
                else if \<not> rank - 1 < length perm then Inl OutOfRange
                else Inr (perm ! (rank - 1) = int (rank - 2))))"

definition reconnectTensors :: "nat \<Rightarrow> nat \<Rightarrow> Graph \<Rightarrow> Graph" where
  "reconnectTensors from to g =
     (let tgts = targets (theap g to);
          g1 = foldl (\<lambda>g target. removeTarget from target g) g (targets (theap g from));
          g2 = foldl (\<lambda>g target.
                  removeTarget to target (addTarget from target (replaceInput target to from g)))
                g1 tgts
      in g2)"

fun replace_first :: "nat \<Rightarrow> nat \<Rightarrow> nat list \<Rightarrow> nat list" where
  "replace_first old new [] = []"
| "replace_first old new (x # xs) = (if x = old then new # xs else x # replace_first old new xs)"

definition replaceOperator :: "nat \<Rightarrow> nat \<Rightarrow> Graph \<Rightarrow> Graph" where
  "replaceOperator oldOp newOp g =
     (let g1 = g\<lparr>ops := replace_first oldOp newOp (ops g)\<rparr>;
          g2 = foldl (\<lambda>g input.
                  let g' = addTarget input newOp (removeTarget input oldOp g)
                  in case source (theap g' input) of
                       Some src \<Rightarrow> addPredecessors newOp src (addSuccessors src newOp g')
                     | None \<Rightarrow> g')
                g1 (inputs (oheap g1 oldOp));
          g3 = foldl (\<lambda>g output.
                  let g' = setSource output newOp g
                  in foldl (\<lambda>g target. addSuccessors newOp target (addPredecessors target newOp g))
                       g' (targets (theap g' output)))
                g2 (outputs (oheap g2 oldOp))
      in g3)"



text \<open>
  Modelled from the spec: \<open>getOutput\<close> of an operator with a single output (declared
  outside the sources at hand) is its first output.
\<close>

definition getOutput :: "Graph \<Rightarrow> nat \<Rightarrow> error + nat" where
  "getOutput g op = at (outputs (oheap g op)) 0"

subsection \<open>Inverse-transpose elimination\<close>

text \<open>
  The body of the loop of \<open>removeRedundantTranspose\<close> at index \<open>i\<close>. It returns whether
  the pair at \<open>i\<close> was spliced out, in which case the scan restarts at 0, and the graph.
\<close>

definition rrt_step :: "Graph \<Rightarrow> nat \<Rightarrow> error + bool \<times> Graph" where
  "rrt_step g i =
     (let op = ops g ! i in
      if opType (oheap g op) \<noteq> Transpose then Inr (False, g)
      else
        case getOutput g op of
          Inl e \<Rightarrow> Inl e
        | Inr output \<Rightarrow>
            if length (targets (theap g output)) = 1 then
              (let nextOp = targets (theap g output) ! 0 in
               if opType (oheap g nextOp) = Transpose then
                 (case isInversePermutation (permute (oheap g op)) (permute (oheap g nextOp)) of
                    Inl e \<Rightarrow> Inl e
                  | Inr False \<Rightarrow> Inr (False, g)
                  | Inr True \<Rightarrow>
                      (case at (inputs (oheap g op)) 0 of
                         Inl e \<Rightarrow> Inl e
                       | Inr input \<Rightarrow>
                           (case getOutput g nextOp of
                              Inl e \<Rightarrow> Inl e
                            | Inr finalOutput \<Rightarrow>
                                Inr (True,
                                  removeTensor finalOutput
                                    (removeTensor output
                                      (removeOperatorfromGraph nextOp
                                        (removeOperatorfromGraph op
                                          (reconnectTensors input finalOutput g))))))))
               else Inr (False, g))
            else Inr (False, g))"

lemma ops_foldl: "(\<And>g x. ops (f g x) = ops g) \<Longrightarrow> ops (foldl f g xs) = ops g"
  by (induction xs arbitrary: g) simp_all

lemma ops_links [simp]:
  "ops (addTarget t op g) = ops g" "ops (removeTarget t op g) = ops g"
  "ops (setSource t op g) = ops g" "ops (addPredecessors op p g) = ops g"
  "ops (addSuccessors op p g) = ops g" "ops (removePredecessors op p g) = ops g"
  "ops (removeSuccessors op p g) = ops g" "ops (replaceInput op t t' g) = ops g"
  "ops (removeTensor t g) = ops g"
  by (simp_all add: addTarget_def removeTarget_def setSource_def addPredecessors_def
      addSuccessors_def removePredecessors_def removeSuccessors_def replaceInput_def
      removeTensor_def)

lemma ops_reconnectTensors [simp]: "ops (reconnectTensors a b g) = ops g"
  by (simp add: reconnectTensors_def Let_def ops_foldl)

lemma ops_removeOperatorfromGraph [simp]:
  "ops (removeOperatorfromGraph op g) = remove1 op (ops g)"
  by (simp add: removeOperatorfromGraph_def removeOperator_def Let_def ops_foldl)

lemma length_replace_first [simp]: "length (replace_first a b xs) = length xs"
  by (induction xs) simp_all

lemma ops_replaceOperator [simp]:
  "length (ops (replaceOperator a b g)) = length (ops g)"
  by (simp add: replaceOperator_def Let_def ops_foldl split: option.splits)

lemma rrt_step_no_restart: "rrt_step g i = Inr (False, g') \<Longrightarrow> g' = g"
  by (auto simp: rrt_step_def Let_def split: if_splits sum.splits bool.splits)

lemma rrt_step_restart:
  assumes "rrt_step g i = Inr (True, g')" "i < length (ops g)"
  shows "length (ops g') < length (ops g)"
proof -
  obtain x where "ops g' = remove1 x (remove1 (ops g ! i) (ops g))"
    using assms(1) by (auto simp: rrt_step_def Let_def split: if_splits sum.splits bool.splits)
  moreover have "ops g ! i \<in> set (ops g)" using assms(2) by simp
  then have "length (remove1 (ops g ! i) (ops g)) < length (ops g)"
    using assms(2) by (simp add: length_remove1)
  moreover have "length (remove1 x ys) \<le> length ys" for ys :: "nat list"
    by (simp add: length_remove1)
  ultimately show ?thesis by (metis le_less_trans)
qed

function rrt_loop :: "Graph \<Rightarrow> nat \<Rightarrow> bool \<Rightarrow> error + bool \<times> Graph" where
  "rrt_loop g i changed =
     (if i < length (ops g) then
        (case rrt_step g i of
           Inl e \<Rightarrow> Inl e
         | Inr (restart, g') \<Rightarrow>
             if restart then rrt_loop g' 0 True else rrt_loop g' (Suc i) changed)
      else Inr (changed, g))"
  by pat_completeness auto
termination
  apply (relation "measures [\<lambda>(g, i, c). length (ops g), \<lambda>(g, i, c). length (ops g) - i]")
    apply simp
   apply (auto dest: rrt_step_restart rrt_step_no_restart)
  done

declare rrt_loop.simps [simp del]

definition removeRedundantTranspose :: "Graph \<Rightarrow> error + bool \<times> Graph" where
  "removeRedundantTranspose g =
     (case rrt_loop g 0 False of
        Inl e \<Rightarrow> Inl e
      | Inr (changed, g') \<Rightarrow> Inr (changed, snd (topo_sort g')))"



subsection \<open>Transpose-into-matmul fusion\<close>

text \<open>
  The two halves of the loop body of \<open>fuseTransposeIntoMatmul\<close> for the MatMul \<open>op\<close>
  with inputs \<open>inputA\<close> and \<open>inputB\<close>. Each returns whether it fused, and the graph.
\<close>

definition fuseA ::
  "(Graph \<Rightarrow> OperatorObj \<Rightarrow> bool) \<Rightarrow> Graph \<Rightarrow> nat \<Rightarrow> nat \<Rightarrow> nat \<Rightarrow> error + bool \<times> Graph" where
  "fuseA opCheck g op inputA inputB =
     (case source (theap g inputA) of
        None \<Rightarrow> Inr (False, g)
      | Some sourceA \<Rightarrow>
          if opType (oheap g sourceA) = Transpose then
            (case isLastTwoDimTranspose (permute (oheap g sourceA)) (length (dims (theap g inputA))) of
               Inl e \<Rightarrow> Inl e
             | Inr False \<Rightarrow> Inr (False, g)
             | Inr True \<Rightarrow>
                 (case at (inputs (oheap g sourceA)) 0 of
                    Inl e \<Rightarrow> Inl e
                  | Inr inputtransposeA \<Rightarrow>
                      (case getOutput g op of
                         Inl e \<Rightarrow> Inl e
                       | Inr out \<Rightarrow>
                           (case MatmulObj_new opCheck inputtransposeA inputB out
                                   (\<not> transA (oheap g op)) (transB (oheap g op)) g of
                              Inl e \<Rightarrow> Inl e
                            | Inr (newMatmul, g1) \<Rightarrow>
                                (let g2 = replaceOperator op newMatmul g1;
                                     g3 = (if length (targets (theap g2 inputA)) = 1
                                           then removeTensor inputA (removeOperatorfromGraph sourceA g2)
                                           else g2)
                                 in Inr (True, g3))))))
          else Inr (False, g))"

definition fuseB ::
  "(Graph \<Rightarrow> OperatorObj \<Rightarrow> bool) \<Rightarrow> Graph \<Rightarrow> nat \<Rightarrow> nat \<Rightarrow> nat \<Rightarrow> error + bool \<times> Graph" where
  "fuseB opCheck g op inputA inputB =
     (case source (theap g inputB) of
        None \<Rightarrow> Inr (False, g)
      | Some sourceB \<Rightarrow>
          if opType (oheap g sourceB) = Transpose then
            (case isLastTwoDimTranspose (permute (oheap g sourceB)) (length (dims (theap g inputB))) of
               Inl e \<Rightarrow> Inl e
             | Inr False \<Rightarrow> Inr (False, g)
             | Inr True \<Rightarrow>
                 (case at (inputs (oheap g sourceB)) 0 of
                    Inl e \<Rightarrow> Inl e
                  | Inr inputtransposeB \<Rightarrow>
                      (let g0 = removeTarget inputtransposeB sourceB g in
                       case getOutput g0 op of
                         Inl e \<Rightarrow> Inl e
                       | Inr out \<Rightarrow>
                           (case MatmulObj_new opCheck inputA inputtransposeB out
                                   (transA (oheap g0 op)) (\<not> transB (oheap g0 op)) g0 of
                              Inl e \<Rightarrow> Inl e
                            | Inr (newMatmul, g1) \<Rightarrow>
                                (let g1' = addTarget inputtransposeB newMatmul g1;
                                     g2 = replaceOperator op newMatmul g1';
                                     g3 = (if length (targets (theap g2 inputB)) = 1
                                           then removeTensor inputB (removeOperatorfromGraph sourceB g2)
                                           else g2)
                                 in Inr (True, g3))))))
          else Inr (False, g))"

definition fuse_step ::
  "(Graph \<Rightarrow> OperatorObj \<Rightarrow> bool) \<Rightarrow> Graph \<Rightarrow> nat \<Rightarrow> error + bool \<times> Graph" where
  "fuse_step opCheck g i =
     (let op = ops g ! i in
      if opType (oheap g op) \<noteq> MatMul then Inr (False, g)
      else
        case at (inputs (oheap g op)) 0 of
          Inl e \<Rightarrow> Inl e
        | Inr inputA \<Rightarrow>
            (case at (inputs (oheap g op)) 1 of
               Inl e \<Rightarrow> Inl e
             | Inr inputB \<Rightarrow>
                 (case fuseA opCheck g op inputA inputB of
                    Inl e \<Rightarrow> Inl e
                  | Inr (fusedA, g1) \<Rightarrow>
                      if \<not> fusedA then fuseB opCheck g1 op inputA inputB
                      else Inr (True, g1))))"

lemma ops_MatmulObj_new:
  "MatmulObj_new chk A B C tA tB g = Inr (n, g') \<Longrightarrow> ops g' = ops g"
  by (auto simp: MatmulObj_new_def new_operator_def Let_def split: if_splits)

lemma length_remove1_le: "length (remove1 x ys) \<le> length ys"
  by (simp add: length_remove1)

lemma length_remove1_replaceOperator:
  "length (ops h) = n \<Longrightarrow> length (remove1 x (ops (replaceOperator a b h))) \<le> n"
  using length_remove1_le[of x "ops (replaceOperator a b h)"] by simp

lemma fuseA_ops: "fuseA chk g op a b = Inr (c, g') \<Longrightarrow> length (ops g') \<le> length (ops g)"
  by (auto simp: fuseA_def Let_def length_remove1_replaceOperator dest!: ops_MatmulObj_new
           split: option.splits if_splits sum.splits bool.splits)

lemma fuseB_ops: "fuseB chk g op a b = Inr (c, g') \<Longrightarrow> length (ops g') \<le> length (ops g)"
  by (auto simp: fuseB_def Let_def length_remove1_replaceOperator dest!: ops_MatmulObj_new
           split: option.splits if_splits sum.splits bool.splits)

lemma fuse_step_ops:
  "fuse_step chk g i = Inr (c, g') \<Longrightarrow> length (ops g') \<le> length (ops g)"
  by (auto simp: fuse_step_def Let_def split: if_splits sum.splits
           dest!: fuseA_ops fuseB_ops)

function fuse_loop ::
  "(Graph \<Rightarrow> OperatorObj \<Rightarrow> bool) \<Rightarrow> Graph \<Rightarrow> nat \<Rightarrow> bool \<Rightarrow> error + bool \<times> Graph" where
  "fuse_loop opCheck g i changed =
     (if i < length (ops g) then
        (case fuse_step opCheck g i of
           Inl e \<Rightarrow> Inl e
         | Inr (c, g') \<Rightarrow> fuse_loop opCheck g' (Suc i) (changed \<or> c))
      else Inr (changed, g))"
  by pat_completeness auto
termination
  apply (relation "measure (\<lambda>(chk, g, i, c). length (ops g) - i)")
   apply simp
  apply (auto dest!: fuse_step_ops)
  done

declare fuse_loop.simps [simp del]

definition fuseTransposeIntoMatmul ::
  "(Graph \<Rightarrow> OperatorObj \<Rightarrow> bool) \<Rightarrow> Graph \<Rightarrow> error + bool \<times> Graph" where
  "fuseTransposeIntoMatmul opCheck g = fuse_loop opCheck g 0 False"

subsection \<open>optimize\<close>

text \<open>
  The \<open>while\<close> loop of \<open>optimize\<close> runs both passes and repeats while either reports a
  change. Nothing bounds the number of rounds, so the loop carries fuel: \<open>None\<close> means that
  the rounds allowed did not reach a fixpoint. After the loop the sorted flag is cleared.
\<close>

fun optimize_loop ::
  "nat \<Rightarrow> (Graph \<Rightarrow> OperatorObj \<Rightarrow> bool) \<Rightarrow> Graph \<Rightarrow> (error + Graph) option" where
  "optimize_loop 0 opCheck g = None"
| "optimize_loop (Suc fuel) opCheck g =
     (case removeRedundantTranspose g of
        Inl e \<Rightarrow> Some (Inl e)
      | Inr (c1, g1) \<Rightarrow>
          (case fuseTransposeIntoMatmul opCheck g1 of
             Inl e \<Rightarrow> Some (Inl e)
           | Inr (c2, g2) \<Rightarrow>
               if c1 \<or> c2 then optimize_loop fuel opCheck g2 else Some (Inr g2)))"

definition optimize ::
  "nat \<Rightarrow> (Graph \<Rightarrow> OperatorObj \<Rightarrow> bool) \<Rightarrow> Graph \<Rightarrow> (error + Graph) option" where
  "optimize fuel opCheck g =
     (case optimize_loop fuel opCheck g of
        None \<Rightarrow> None
      | Some (Inl e) \<Rightarrow> Some (Inl e)
      | Some (Inr g') \<Rightarrow> Some (Inr (g'\<lparr>sorted_flag := False\<rparr>)))"


subsection \<open>Scenario graphs\<close>

text \<open>
  The operator objects that the graphs below hold before they are connected. The
  constructor of \<open>MatmulObj\<close> builds \<open>matmul_obj\<close>. Modelled from the spec: the
  constructor of \<open>TransposeObj\<close> (operators/transpose.cc is outside the sources at hand)
  builds an operator of kind Transpose with one input, one output and its permutation;
  \<open>generic_obj\<close> is an operator of any other kind, of which only the inputs and outputs
  matter. \<open>addOpWithOutputs\<close> is the template of core/graph.h: construct, then
  \<open>addOperatorAndConnect\<close>.
\<close>

definition transpose_obj :: "nat \<Rightarrow> nat \<Rightarrow> int list \<Rightarrow> OperatorObj" where
  "transpose_obj inp out perm =
     \<lparr>opType = Transpose, inputs = [inp], outputs = [out], predecessors = [], successors = [],
      transA = False, transB = False, permute = perm\<rparr>"

definition matmul_obj :: "nat \<Rightarrow> nat \<Rightarrow> nat \<Rightarrow> bool \<Rightarrow> bool \<Rightarrow> OperatorObj" where
  "matmul_obj A B C tA tB =
     \<lparr>opType = MatMul, inputs = [A, B], outputs = [C], predecessors = [], successors = [],
      transA = tA, transB = tB, permute = []\<rparr>"

definition generic_obj :: "nat list \<Rightarrow> nat list \<Rightarrow> OperatorObj" where
  "generic_obj ins outs =
     \<lparr>opType = Unknown, inputs = ins, outputs = outs, predecessors = [], successors = [],
      transA = False, transB = False, permute = []\<rparr>"

definition addOpWithOutputs :: "OperatorObj \<Rightarrow> Graph \<Rightarrow> nat \<times> Graph" where
  "addOpWithOutputs obj g =
     (case new_operator obj g of (op, g1) \<Rightarrow> (op, addOperatorAndConnect op g1))"

text \<open>
  The right-operand scenario: \<open>A: [M,K]\<close>, \<open>B0: [N,K]\<close>, \<open>B = Transpose(B0, [1,0])\<close>,
  \<open>C = MatMul(A, B)\<close> without transposition.
\<close>

definition c3_graph :: "int \<Rightarrow> int \<Rightarrow> int \<Rightarrow> Graph" where
  "c3_graph M K N =
     (case addTensor [M, K] empty_graph of (A, g1) \<Rightarrow>
      case addTensor [N, K] g1 of (B0, g2) \<Rightarrow>
      case addTensor [K, N] g2 of (B, g3) \<Rightarrow>
      case addTensor [M, N] g3 of (C, g4) \<Rightarrow>
      case addOpWithOutputs (transpose_obj B0 B [1, 0]) g4 of (T, g5) \<Rightarrow>
      case addOpWithOutputs (matmul_obj A B C False False) g5 of (MM, g6) \<Rightarrow> g6)"

text \<open>
  The left-operand scenario: \<open>X: [2,3]\<close>, \<open>A = Transpose(X, [1,0])\<close>, \<open>B: [2,4]\<close>,
  \<open>C = MatMul(A, B)\<close> without transposition; the MatMul is the only consumer of \<open>A\<close>.
\<close>

definition c1_graph :: Graph where
  "c1_graph =
     (case addTensor [2, 3] empty_graph of (X, g1) \<Rightarrow>
      case addTensor [3, 2] g1 of (A, g2) \<Rightarrow>
      case addTensor [2, 4] g2 of (B, g3) \<Rightarrow>
      case addTensor [3, 4] g3 of (C, g4) \<Rightarrow>
      case addOpWithOutputs (transpose_obj X A [1, 0]) g4 of (T, g5) \<Rightarrow>
      case addOpWithOutputs (matmul_obj A B C False False) g5 of (MM, g6) \<Rightarrow> g6)"

text \<open>
  The inverse-transpose scenario: \<open>x: [2,3,4]\<close>, \<open>y = Transpose(x, [2,0,1])\<close>,
  \<open>z = Transpose(y, [1,2,0])\<close>.
\<close>

definition c2_graph :: Graph where
  "c2_graph =
     (case addTensor [2, 3, 4] empty_graph of (x, g1) \<Rightarrow>
      case addTensor [4, 2, 3] g1 of (y, g2) \<Rightarrow>
      case addTensor [2, 3, 4] g2 of (z, g3) \<Rightarrow>
      case addOpWithOutputs (transpose_obj x y [2, 0, 1]) g3 of (T1, g4) \<Rightarrow>
      case addOpWithOutputs (transpose_obj y z [1, 2, 0]) g4 of (T2, g5) \<Rightarrow> g5)"

text \<open>
  A chain of two operators, \<open>P\<close> from \<open>t0\<close> to \<open>t1\<close> and \<open>Q\<close> from \<open>t1\<close> to \<open>t2\<close>, and
  two operators whose outputs feed each other's inputs.
\<close>

definition c6_graph :: Graph where
  "c6_graph =
     (case addTensor [2] empty_graph of (t0, g1) \<Rightarrow>
      case addTensor [2] g1 of (t1, g2) \<Rightarrow>
      case addTensor [2] g2 of (t2, g3) \<Rightarrow>
      case addOpWithOutputs (generic_obj [t0] [t1]) g3 of (P, g4) \<Rightarrow>
      case addOpWithOutputs (generic_obj [t1] [t2]) g4 of (Q, g5) \<Rightarrow> g5)"

definition c7_graph :: Graph where
  "c7_graph =
     (case addTensor [2] empty_graph of (a, g1) \<Rightarrow>
      case addTensor [2] g1 of (b, g2) \<Rightarrow>
      case addOpWithOutputs (generic_obj [b] [a]) g2 of (P, g3) \<Rightarrow>
      case addOpWithOutputs (generic_obj [a] [b]) g3 of (Q, g4) \<Rightarrow> g4)"

text \<open>
  The chain after a successful sort and the removal of \<open>P\<close> through \<open>removeOperator\<close>.
\<close>

definition c6_removed :: Graph where
  "c6_removed = removeOperator 3 (snd (topo_sort c6_graph))"

section \<open>Broadcast and MatMul shape inference: results\<close>

lemma infer_broadcast_loop_step:
  "infer_broadcast_loop A B n (i # rest) res =
     (if broadcastable (dim_from_right A i) (dim_from_right B i)
      then infer_broadcast_loop A B n rest
             (res[n - 1 - i := broadcast_dim (dim_from_right A i) (dim_from_right B i)])
      else Inl AssertionFailed)"
  by (auto simp: Let_def dim_from_right_def broadcastable_def broadcast_dim_def)

lemma infer_broadcast_loop_char:
  assumes "length res = n" "\<forall>i\<in>set is. i < n"
  shows "infer_broadcast_loop A B n is res =
    (if \<forall>i\<in>set is. broadcastable (dim_from_right A i) (dim_from_right B i)
     then Inr (map (\<lambda>j. if n - 1 - j \<in> set is
                         then broadcast_dim (dim_from_right A (n - 1 - j)) (dim_from_right B (n - 1 - j))
                         else res ! j) [0..<n])
     else Inl AssertionFailed)"
  using assms
proof (induction "is" arbitrary: res)
  case Nil
  then have "map ((!) res) [0..<n] = res" using map_nth by blast
  then show ?case by simp
next
  case (Cons i rest)
  define v where "v = broadcast_dim (dim_from_right A i) (dim_from_right B i)"
  define res' where "res' = res[n - 1 - i := v]"
  have i: "i < n" using Cons.prems by simp
  have r: "\<forall>i\<in>set rest. i < n" using Cons.prems by simp
  have len: "length res' = n" using Cons.prems(1) by (simp add: res'_def)
  have upd: "res' ! j = (if n - 1 - j = i then v else res ! j)" if "j < n" for j
    using that i Cons.prems(1) by (auto simp: res'_def nth_list_update)
  have eq: "map (\<lambda>j. if n - 1 - j \<in> set rest
                  then broadcast_dim (dim_from_right A (n - 1 - j)) (dim_from_right B (n - 1 - j))
                  else res' ! j) [0..<n] =
            map (\<lambda>j. if n - 1 - j \<in> set (i # rest)
                  then broadcast_dim (dim_from_right A (n - 1 - j)) (dim_from_right B (n - 1 - j))
                  else res ! j) [0..<n]"
    by (rule map_cong) (auto simp: upd v_def)
  show ?case
    unfolding infer_broadcast_loop_step v_def[symmetric] res'_def[symmetric]
    using Cons.IH[OF len r] eq by auto
qed

lemma pad_left_nth:
  "length A \<le> n \<Longrightarrow> j < n \<Longrightarrow> pad_left n A ! j = dim_from_right A (n - 1 - j)"
  by (auto simp: pad_left_def dim_from_right_def nth_append intro!: arg_cong[where f="nth A"])

lemma length_pad_left: "length A \<le> n \<Longrightarrow> length (pad_left n A) = n"
  by (simp add: pad_left_def)

lemma infer_broadcast_char:
  "infer_broadcast A B =
     (let n = max (length A) (length B); A' = pad_left n A; B' = pad_left n B
      in if list_all2 broadcastable A' B' then Inr (map2 broadcast_dim A' B')
         else Inl AssertionFailed)"
proof -
  define n where "n = max (length A) (length B)"
  have la: "length A \<le> n" and lb: "length B \<le> n" by (simp_all add: n_def)
  have all: "list_all2 broadcastable (pad_left n A) (pad_left n B) \<longleftrightarrow>
        (\<forall>i\<in>set [0..<n]. broadcastable (dim_from_right A i) (dim_from_right B i))"
  proof -
    have "list_all2 broadcastable (pad_left n A) (pad_left n B) \<longleftrightarrow>
        (\<forall>j<n. broadcastable (dim_from_right A (n - 1 - j)) (dim_from_right B (n - 1 - j)))"
      using la lb by (simp add: list_all2_conv_all_nth length_pad_left pad_left_nth)
    also have "\<dots> \<longleftrightarrow> (\<forall>i<n. broadcastable (dim_from_right A i) (dim_from_right B i))"
    proof (intro iffI allI impI)
      fix i assume h: "\<forall>j<n. broadcastable (dim_from_right A (n - 1 - j)) (dim_from_right B (n - 1 - j))" and "i < n"
      then have "n - 1 - i < n" "n - 1 - (n - 1 - i) = i" by auto
      with h show "broadcastable (dim_from_right A i) (dim_from_right B i)" by metis
    next
      fix j assume "\<forall>i<n. broadcastable (dim_from_right A i) (dim_from_right B i)" "j < n"
      then show "broadcastable (dim_from_right A (n - 1 - j)) (dim_from_right B (n - 1 - j))" by simp
    qed
    finally show ?thesis by auto
  qed
  have m: "map2 broadcast_dim (pad_left n A) (pad_left n B) =
        map (\<lambda>j. broadcast_dim (dim_from_right A (n - 1 - j)) (dim_from_right B (n - 1 - j))) [0..<n]"
    using la lb by (auto simp: list_eq_iff_nth_eq length_pad_left pad_left_nth)
  have "infer_broadcast A B = infer_broadcast_loop A B n [0..<n] (replicate n 0)"
    by (simp add: infer_broadcast_def n_def Let_def)
  also have "\<dots> = (if \<forall>i\<in>set [0..<n]. broadcastable (dim_from_right A i) (dim_from_right B i)
     then Inr (map (\<lambda>j. if n - 1 - j \<in> set [0..<n]
                         then broadcast_dim (dim_from_right A (n - 1 - j)) (dim_from_right B (n - 1 - j))
                         else replicate n 0 ! j) [0..<n])
     else Inl AssertionFailed)"
    by (rule infer_broadcast_loop_char) simp_all
  also have "\<dots> = (if list_all2 broadcastable (pad_left n A) (pad_left n B)
      then Inr (map2 broadcast_dim (pad_left n A) (pad_left n B)) else Inl AssertionFailed)"
    unfolding all m by (auto intro!: map_cong)
  finally show ?thesis by (simp add: n_def Let_def)
qed

lemma map2_max_broadcast_dim:
  assumes "list_all2 broadcastable xs ys" "\<forall>d\<in>set xs. 1 \<le> d" "\<forall>d\<in>set ys. 1 \<le> d"
  shows "map2 broadcast_dim xs ys = map2 max xs ys"
  using assms
  by (induction xs ys rule: list_all2_induct) (auto simp: broadcastable_def broadcast_dim_def)

lemma set_pad_left: "set (pad_left n A) \<subseteq> insert 1 (set A)"
  by (auto simp: pad_left_def)

lemma infer_broadcast_eq_spec:
  assumes "\<forall>d\<in>set A \<union> set B. 1 \<le> d"
  shows "infer_broadcast A B = broadcast_spec A B"
proof -
  have "\<forall>d\<in>set (pad_left n A). 1 \<le> d" "\<forall>d\<in>set (pad_left n B). 1 \<le> d" for n
    using assms set_pad_left[of n A] set_pad_left[of n B] by auto
  then show ?thesis
    by (simp add: infer_broadcast_char broadcast_spec_def Let_def map2_max_broadcast_dim)
qed

lemma matmul_broadcast_example:
  "MatmulObj_inferShape False False [4, 1, M, K] [1, 7, K, N] = Inr [[4, 7, M, N]]"
  by (simp add: MatmulObj_inferShape_def infer_broadcast_def Let_def upt_rec)

text \<open>
  C9, as stated, fails: the result dimension is not always the maximum of the two. For the
  shapes \<open>[1]\<close> and \<open>[0]\<close> the code returns \<open>[0]\<close>, the maximum is 1.
\<close>

theorem infer_broadcast_max_counterexample:
  "infer_broadcast [1] [0] = Inr [0] \<and> broadcast_spec [1] [0] = Inr [1] \<and>
   infer_broadcast [1] [0] \<noteq> broadcast_spec [1] [0]"
  by (simp add: infer_broadcast_def broadcast_spec_def pad_left_def broadcastable_def)

text \<open>
  C9, amended: \<open>infer_broadcast\<close> implements the right-aligned broadcast rule. The
  shorter shape is padded on the left with 1s; if at some position the two dimensions are
  neither equal nor is one of them 1, the assertion fails; otherwise the result takes, at
  each position, the dimension that is not 1 (the common value when both are equal). That
  is the maximum of the two whenever every dimension of both shapes is at least 1. MatMul
  shape inference on \<open>[4,1,M,K]\<close> and \<open>[1,7,K,N]\<close> without transposition yields
  \<open>[4,7,M,N]\<close>.
\<close>

theorem infer_broadcast_right_aligned:
  "infer_broadcast A B =
     (let n = max (length A) (length B); A' = pad_left n A; B' = pad_left n B
      in if list_all2 broadcastable A' B' then Inr (map2 broadcast_dim A' B')
         else Inl AssertionFailed)
   \<and> ((\<forall>d\<in>set A \<union> set B. 1 \<le> d) \<longrightarrow> infer_broadcast A B = broadcast_spec A B)
   \<and> MatmulObj_inferShape False False [4, 1, M, K] [1, 7, K, N] = Inr [[4, 7, M, N]]"
  using infer_broadcast_char[of A B] infer_broadcast_eq_spec[of A B]
        matmul_broadcast_example[of M K N]
  by blast

theorem infer_broadcast_right_aligned_witness:
  "list_all (\<lambda>d. 1 \<le> d) [4, 1, 1, 7 :: int] \<and>
   infer_broadcast [4, 1] [1, 7] = broadcast_spec [4, 1] [1, 7] \<and>
   broadcast_spec [4, 1] [1, 7] = Inr [4, 7] \<and>
   MatmulObj_inferShape False False [4, 1, 2, 3] [1, 7, 3, 5] = Inr [[4, 7, 2, 5]]"
proof -
  have h: "\<forall>d\<in>set [4, 1] \<union> set [1, 7 :: int]. 1 \<le> d" by simp
  have s: "broadcast_spec [4, 1] [1, 7] = Inr [4, 7]"
    by (simp add: broadcast_spec_def pad_left_def broadcastable_def)
  from infer_broadcast_right_aligned[of "[4, 1]" "[1, 7]" 2 3 5] h
  have "infer_broadcast [4, 1] [1, 7] = broadcast_spec [4, 1] [1, 7]"
       "MatmulObj_inferShape False False [4, 1, 2, 3] [1, 7, 3, 5] = Inr [[4, 7, 2, 5]]"
    by blast+
  with s show ?thesis by simp
qed

section \<open>Concat: results\<close>

lemma wrap_int32_id: "int32_range x \<Longrightarrow> wrap_int32 x = x"
  by (simp add: int32_range_def wrap_int32_def)

lemma wrap_int32_range: "int32_range (wrap_int32 x)"
  by (simp add: int32_range_def wrap_int32_def)

lemma wrap_int32_add: "wrap_int32 (wrap_int32 a + b) = wrap_int32 (a + b)"
proof -
  have e: "wrap_int32 a + b + 2147483648 = (a + 2147483648) mod 4294967296 + b"
    by (simp add: wrap_int32_def)
  have "(wrap_int32 a + b + 2147483648) mod 4294967296 =
        ((a + 2147483648) mod 4294967296 + b) mod 4294967296"
    by (simp only: e)
  also have "\<dots> = (a + 2147483648 + b) mod 4294967296"
    by (rule mod_add_left_eq)
  also have "a + 2147483648 + b = a + b + 2147483648" by simp
  finally have "(wrap_int32 a + b + 2147483648) mod 4294967296 =
                (a + b + 2147483648) mod 4294967296" .
  then show ?thesis by (simp only: wrap_int32_def[of "wrap_int32 a + b"] wrap_int32_def[of "a + b"])
qed

lemma concat_sum_loop_char:
  assumes "k < length ds" "\<forall>s\<in>set rest. k < length s"
  shows "concat_sum_loop (int k) rest ds =
           Inr (ds[k := (if rest = [] then ds ! k
                         else wrap_int32 (ds ! k + sum_list (map (\<lambda>s. s ! k) rest)))])"
  using assms
proof (induction rest arbitrary: ds)
  case Nil
  then show ?case by simp
next
  case (Cons s rest)
  then show ?case by (simp add: wrap_int32_add add.assoc)
qed

lemma concat_sum_loop_wrap:
  assumes "k < length ds" "\<forall>s\<in>set rest. k < length s" "int32_range (ds ! k)"
  shows "concat_sum_loop (int k) rest ds =
           Inr (ds[k := wrap_int32 (ds ! k + sum_list (map (\<lambda>s. s ! k) rest))])"
  using concat_sum_loop_char[OF assms(1,2)] assms(3) by (simp add: wrap_int32_id)

lemma get_real_axis_in_range:
  "- r \<le> d \<Longrightarrow> d \<le> r - 1 \<Longrightarrow> get_real_axis d r = Inr (if 0 \<le> d then d else r + d)"
  by (auto simp: get_real_axis_def)

lemma get_real_axis_fails:
  "\<not> (- r \<le> d \<and> d \<le> r - 1) \<or> r < 1 \<Longrightarrow> get_real_axis d r = Inl AssertionFailed"
  by (auto simp: get_real_axis_def)

text \<open>
  C10: a Concat operator is constructed from a non-empty list of inputs that all have rank
  \<open>r\<close> and whose dimensions are C++ \<open>int\<close> values. For an axis \<open>d\<close> with
  \<open>-r \<le> d \<le> r - 1\<close> the operator that the constructor builds stores the axis \<open>d\<close>
  when \<open>d \<ge> 0\<close> and \<open>r + d\<close> when \<open>d < 0\<close> (the constructor returns it unless the
  validity check it asserts last rejects it), and \<open>inferShape\<close> returns exactly one
  shape: the first input's shape with the dimension at the stored axis replaced by the sum
  of that dimension over all inputs, the sum being that of \<open>int\<close> arithmetic; it is the
  mathematical sum whenever that fits an \<open>int\<close>. An axis outside \<open>[-r, r - 1]\<close>, or
  \<open>r < 1\<close>, fails the assertion at construction.
\<close>

theorem concat_axis_and_shape:
  assumes "inps \<noteq> []" "\<forall>s\<in>set inps. int (length s) = r"
    and "\<forall>s\<in>set inps. \<forall>x\<in>set s. int32_range x"
  shows "(- r \<le> d \<and> d \<le> r - 1 \<longrightarrow>
           (\<exists>obj. concat_inputs obj = inps \<and>
                  concat_dim obj = (if 0 \<le> d then d else r + d) \<and>
                  ConcatObj_new chk inps d = (if chk obj then Inr obj else Inl AssertionFailed) \<and>
                  ConcatObj_inferShape obj inps =
                    Inr [(hd inps)[nat (concat_dim obj) :=
                           wrap_int32 (sum_list (map (\<lambda>s. s ! nat (concat_dim obj)) inps))]] \<and>
                  (int32_range (sum_list (map (\<lambda>s. s ! nat (concat_dim obj)) inps)) \<longrightarrow>
                   ConcatObj_inferShape obj inps =
                     Inr [(hd inps)[nat (concat_dim obj) :=
                            sum_list (map (\<lambda>s. s ! nat (concat_dim obj)) inps)]])))
       \<and> (\<not> (- r \<le> d \<and> d \<le> r - 1) \<or> r < 1 \<longrightarrow>
            ConcatObj_new chk inps d = Inl AssertionFailed)"
proof -
  obtain first others where inps: "inps = first # others"
    using assms(1) by (cases inps) auto
  have rk: "int (length first) = r" using assms(2) inps by simp
  show ?thesis
  proof (intro conjI impI)
    assume rng: "- r \<le> d \<and> d \<le> r - 1"
    define ax where "ax = (if 0 \<le> d then d else r + d)"
    define obj where "obj = \<lparr>concat_inputs = inps, concat_dim = ax\<rparr>"
    have ax0: "0 \<le> ax" "ax < r" using rng by (auto simp: ax_def)
    define k where "k = nat ax"
    have k: "int k = ax" "k < length first" "\<forall>s\<in>set others. k < length s"
      using ax0 rk assms(2) inps by (auto simp: k_def)
    have fr: "int32_range (first ! k)"
      using assms(3) inps k(2) by simp
    have new: "ConcatObj_new chk inps d = (if chk obj then Inr obj else Inl AssertionFailed)"
      using rng unfolding obj_def ax_def
      by (simp add: ConcatObj_new_def inps rk get_real_axis_in_range Let_def)
    have "concat_sum_loop ax others first =
            Inr (first[k := wrap_int32 (first ! k + sum_list (map (\<lambda>s. s ! k) others))])"
      using concat_sum_loop_wrap[OF k(2) k(3) fr] k(1) by simp
    then have inf: "ConcatObj_inferShape obj inps =
        Inr [(hd inps)[nat (concat_dim obj) :=
               wrap_int32 (sum_list (map (\<lambda>s. s ! nat (concat_dim obj)) inps))]]"
      by (simp add: ConcatObj_inferShape_def inps obj_def k_def)
    have ex: "int32_range (sum_list (map (\<lambda>s. s ! nat (concat_dim obj)) inps)) \<longrightarrow>
                   ConcatObj_inferShape obj inps =
                     Inr [(hd inps)[nat (concat_dim obj) :=
                            sum_list (map (\<lambda>s. s ! nat (concat_dim obj)) inps)]]"
      using inf by (simp add: wrap_int32_id)
    show "\<exists>obj. concat_inputs obj = inps \<and>
                  concat_dim obj = (if 0 \<le> d then d else r + d) \<and>
                  ConcatObj_new chk inps d = (if chk obj then Inr obj else Inl AssertionFailed) \<and>
                  ConcatObj_inferShape obj inps =
                    Inr [(hd inps)[nat (concat_dim obj) :=
                           wrap_int32 (sum_list (map (\<lambda>s. s ! nat (concat_dim obj)) inps))]] \<and>
                  (int32_range (sum_list (map (\<lambda>s. s ! nat (concat_dim obj)) inps)) \<longrightarrow>
                   ConcatObj_inferShape obj inps =
                     Inr [(hd inps)[nat (concat_dim obj) :=
                            sum_list (map (\<lambda>s. s ! nat (concat_dim obj)) inps)]])"
      using new inf ex by (intro exI[of _ obj]) (simp add: obj_def ax_def)
  next
    assume "\<not> (- r \<le> d \<and> d \<le> r - 1) \<or> r < 1"
    then show "ConcatObj_new chk inps d = Inl AssertionFailed"
      by (simp add: ConcatObj_new_def inps rk get_real_axis_fails)
  qed
qed

theorem concat_axis_and_shape_witness:
  "(\<exists>obj. concat_inputs obj = [[2, 3], [2, 5]] \<and> concat_dim obj = 1 \<and>
          ConcatObj_new (\<lambda>_. True) [[2, 3], [2, 5]] (- 1) = Inr obj \<and>
          ConcatObj_inferShape obj [[2, 3], [2, 5]] = Inr [[2, 8]])
   \<and> ConcatObj_new (\<lambda>_. True) [[2, 3], [2, 5]] 2 = Inl AssertionFailed
   \<and> (\<exists>obj. ConcatObj_new (\<lambda>_. True) [[2147483647], [1]] 0 = Inr obj \<and>
          ConcatObj_inferShape obj [[2147483647], [1]] = Inr [[- 2147483648]])"
proof -
  have a: "[[2, 3], [2, 5]] \<noteq> ([] :: Shape list)" by simp
  have b: "\<forall>s\<in>set [[2, 3], [2, 5 :: int]]. int (length s) = 2" by simp
  have c: "\<forall>s\<in>set [[2, 3], [2, 5 :: int]]. \<forall>x\<in>set s. int32_range x"
    by (simp add: int32_range_def)
  from concat_axis_and_shape[OF a b c, of "- 1" "\<lambda>_. True"] obtain obj where
    o: "concat_inputs obj = [[2, 3], [2, 5]]" "concat_dim obj = 1"
       "ConcatObj_new (\<lambda>_. True) [[2, 3], [2, 5]] (- 1) = Inr obj"
       "int32_range (sum_list (map (\<lambda>s. s ! nat (concat_dim obj)) [[2, 3], [2, 5]])) \<longrightarrow>
        ConcatObj_inferShape obj [[2, 3], [2, 5]] =
          Inr [(hd [[2, 3], [2, 5]])[nat (concat_dim obj) :=
                 sum_list (map (\<lambda>s. s ! nat (concat_dim obj)) [[2, 3], [2, 5]])]]"
    by auto
  from o(2) o(4) have i: "ConcatObj_inferShape obj [[2, 3], [2, 5]] = Inr [[2, 8]]"
    by (simp add: int32_range_def)
  from concat_axis_and_shape[OF a b c, of 2 "\<lambda>_. True"]
  have f: "ConcatObj_new (\<lambda>_. True) [[2, 3], [2, 5]] 2 = Inl AssertionFailed" by simp
  have a': "[[2147483647], [1]] \<noteq> ([] :: Shape list)" by simp
  have b': "\<forall>s\<in>set [[2147483647], [1 :: int]]. int (length s) = 1" by simp
  have c': "\<forall>s\<in>set [[2147483647], [1 :: int]]. \<forall>x\<in>set s. int32_range x"
    by (simp add: int32_range_def)
  from concat_axis_and_shape[OF a' b' c', of 0 "\<lambda>_. True"] obtain obj' where
    o': "concat_dim obj' = 0"
        "ConcatObj_new (\<lambda>_. True) [[2147483647], [1]] 0 = Inr obj'"
        "ConcatObj_inferShape obj' [[2147483647], [1]] =
           Inr [(hd [[2147483647], [1]])[nat (concat_dim obj') :=
                  wrap_int32 (sum_list (map (\<lambda>s. s ! nat (concat_dim obj')) [[2147483647], [1]]))]]"
    by auto
  from o'(1) o'(3) have w: "ConcatObj_inferShape obj' [[2147483647], [1]] = Inr [[- 2147483648]]"
    by (simp add: wrap_int32_def)
  show ?thesis using o(1,2,3) i f o'(2) w by blast
qed
section \<open>Allocator: results\<close>

subsection \<open>Rounding up to the alignment\<close>

lemma getAlignedSize_unat:
  assumes "alignment a = 8"
  shows "unat (getAlignedSize a sz) = ((unat sz + 7) div 8 * 8) mod 2 ^ 64"
proof (cases "sz = 0")
  case True
  then show ?thesis using assms by (simp add: getAlignedSize_def)
next
  case False
  then have p: "0 < unat sz" by (simp add: unat_gt_0)
  have 1: "unat (sz - 1) = unat sz - 1" using False by (simp add: unat_minus_one)
  have 2: "unat ((sz - 1) div 8) = (unat sz - 1) div 8" by (simp add: unat_div 1)
  have lt: "unat sz < 2 ^ 64" using unsigned_less[of sz] by simp
  have "unat ((sz - 1) div 8) + unat (1 :: 64 word) < 2 ^ LENGTH(64)"
    using lt unfolding 2 by simp
  then have "unat ((sz - 1) div 8 + 1) = unat ((sz - 1) div 8) + unat (1 :: 64 word)"
    by (rule unat_add_lem[THEN iffD1])
  then have 3: "unat ((sz - 1) div 8 + 1) = (unat sz - 1) div 8 + 1"
    unfolding 2 by simp
  have "unat (((sz - 1) div 8 + 1) * 8) = (unat ((sz - 1) div 8 + 1) * unat (8 :: 64 word)) mod 2 ^ LENGTH(64)"
    by (rule unat_word_ariths)
  then have "unat (((sz - 1) div 8 + 1) * 8) = (((unat sz - 1) div 8 + 1) * 8) mod 2 ^ 64"
    unfolding 3 by simp
  then have 4: "unat (((sz - 1) div 8 + 1) * 8) = (((unat sz - 1) div 8 + 1) * 8) mod 2 ^ 64" .
  obtain m where m: "unat sz = Suc m" using p by (cases "unat sz") auto
  have "(m + 8) div 8 = m div 8 + 1" by simp
  then have 5: "(unat sz - 1) div 8 + 1 = (unat sz + 7) div 8" unfolding m by simp
  have "getAlignedSize a sz = ((sz - 1) div 8 + 1) * 8"
    unfolding getAlignedSize_def assms ..
  then show ?thesis using 4 unfolding 5 by (simp only:)
qed

subsection \<open>The ordered map on lists\<close>

lemma map_put_between:
  "\<forall>x\<in>set pre. fst x < k \<Longrightarrow> \<forall>y\<in>set post. k < fst y \<Longrightarrow>
   map_put k v (pre @ post) = pre @ (k, v) # post"
proof (induction pre)
  case Nil
  then show ?case by (cases post) auto
next
  case (Cons x pre)
  then show ?case by (cases x) auto
qed

lemma map_erase_at:
  "\<forall>x\<in>set pre. fst x \<noteq> k \<Longrightarrow> map_erase k (pre @ (k, v) # post) = pre @ post"
  by (induction pre) auto

lemma carve_at:
  "b \<notin> set pre \<Longrightarrow> b \<notin> set post \<Longrightarrow>
   carve b s (pre @ b # post) =
     pre @ (if s < snd b then [(fst b + s, snd b - s)] else []) @ post"
proof -
  have n: "concat (map (\<lambda>b'. if b' = b then r else [b']) xs) = xs" if "b \<notin> set xs" for xs r
    using that by (induction xs) auto
  assume "b \<notin> set pre" "b \<notin> set post"
  then show ?thesis by (simp add: carve_def n)
qed

lemma find_first:
  "\<forall>x\<in>set pre. \<not> P x \<Longrightarrow> P b \<Longrightarrow> find P (pre @ b # post) = Some b"
  by (induction pre) auto

lemma block_before_key: "block_before x y \<Longrightarrow> fst x < fst y"
  by (auto simp: block_before_def word_less_nat_alt)

lemma block_before_neq: "block_before x y \<Longrightarrow> x \<noteq> y"
  by (auto simp: block_before_def)

lemma sorted_split:
  assumes "sorted_wrt block_before (pre @ b # post)"
  shows "\<forall>x\<in>set pre. block_before x b" "\<forall>y\<in>set post. block_before b y"
        "b \<notin> set pre" "b \<notin> set post"
  using assms by (auto simp: sorted_wrt_append block_before_def)

lemma no_wrap_end:
  fixes b :: block
  assumes "unat (fst b) + unat (snd b) \<le> unat (pk :: 64 word)"
  shows "unat (fst b + snd b) = unat (fst b) + unat (snd b)"
proof -
  have "unat pk < 2 ^ LENGTH(64)" by (rule unsigned_less)
  then have "unat (fst b) + unat (snd b) < 2 ^ LENGTH(64)" using assms by linarith
  then show ?thesis by (rule unat_add_lem[THEN iffD1])
qed

lemma tail_is_last:
  assumes s: "sorted_wrt block_before fb"
    and le: "\<forall>x\<in>set fb. unat (fst x) + unat (snd x) \<le> unat pk"
    and b: "b \<in> set fb" and e: "fst b + snd b = pk"
  shows "fb \<noteq> [] \<and> last fb = b \<and> fb = butlast fb @ [b]"
proof -
  obtain pre post where d: "fb = pre @ b # post" using b by (meson split_list)
  have eb: "unat (fst b) + unat (snd b) = unat pk"
    using no_wrap_end[of b pk] le b e by auto
  have "post = []"
  proof (rule ccontr)
    assume "post \<noteq> []"
    then obtain y ys where p: "post = y # ys" by (cases post) auto
    have "block_before b y" using sorted_split(2)[of pre b post] s d p by auto
    then have "unat pk < unat (fst y)" using eb by (simp add: block_before_def)
    moreover have "unat (fst y) + unat (snd y) \<le> unat pk" using le d p by auto
    ultimately show False by linarith
  qed
  then show ?thesis using d by simp
qed

lemma add_less_no_wrap:
  fixes b :: block
  assumes "unat (fst b) + unat (snd b) \<le> unat (pk :: 64 word)" "s < snd b"
  shows "unat (fst b + s) = unat (fst b) + unat s" "unat (fst b) + unat s < unat (fst b) + unat (snd b)"
proof -
  have lt: "unat s < unat (snd b)" using assms(2) by (simp add: word_less_nat_alt)
  then show "unat (fst b) + unat s < unat (fst b) + unat (snd b)" by simp
  have "unat pk < 2 ^ LENGTH(64)" by (rule unsigned_less)
  then have "unat (fst b) + unat s < 2 ^ LENGTH(64)" using assms(1) lt by linarith
  then show "unat (fst b + s) = unat (fst b) + unat s" by (rule unat_add_lem[THEN iffD1])
qed

lemma carve_code:
  fixes b :: block
  assumes s: "sorted_wrt block_before (pre @ b # post)"
    and le: "unat (fst b) + unat (snd b) \<le> unat (pk :: 64 word)"
  shows "(if snd b > sz then map_put (fst b + sz) (snd b - sz) (pre @ post) else pre @ post) =
         carve b sz (pre @ b # post)"
proof (cases "sz < snd b")
  case False
  then show ?thesis using sorted_split(3,4)[OF s] by (simp add: carve_at)
next
  case True
  note nw = add_less_no_wrap[OF le True]
  have "\<forall>x\<in>set pre. fst x < fst b + sz"
    using sorted_split(1)[OF s] nw by (auto simp: block_before_def word_less_nat_alt)
  moreover have "\<forall>y\<in>set post. fst b + sz < fst y"
    using sorted_split(2)[OF s] nw by (auto simp: block_before_def word_less_nat_alt)
  ultimately have "map_put (fst b + sz) (snd b - sz) (pre @ post) =
      pre @ (fst b + sz, snd b - sz) # post"
    by (rule map_put_between)
  then show ?thesis using True sorted_split(3,4)[OF s] by (simp add: carve_at)
qed

lemma erase_code:
  assumes s: "sorted_wrt block_before (pre @ b # post)"
  shows "map_erase (fst b) (pre @ b # post) = pre @ post"
proof -
  have "\<forall>x\<in>set pre. fst x \<noteq> fst b"
    using sorted_split(1)[OF s] block_before_key by fastforce
  then show ?thesis using map_erase_at[of pre "fst b" "snd b" post] by simp
qed

lemma split_at_key:
  assumes "sorted_wrt block_before fb" "\<forall>b\<in>set fb. fst b \<noteq> addr"
  shows "\<exists>xs ys. fb = xs @ ys \<and> (\<forall>x\<in>set xs. fst x < addr) \<and> (\<forall>y\<in>set ys. addr < fst y)"
  using assms
proof (induction fb)
  case Nil
  then show ?case by simp
next
  case (Cons b fb)
  then obtain xs ys where d: "fb = xs @ ys" "\<forall>x\<in>set xs. fst x < addr" "\<forall>y\<in>set ys. addr < fst y"
    by auto
  show ?case
  proof (cases "fst b < addr")
    case True
    then have "b # fb = (b # xs) @ ys \<and> (\<forall>x\<in>set (b # xs). fst x < addr) \<and> (\<forall>y\<in>set ys. addr < fst y)"
      using d by simp
    then show ?thesis by blast
  next
    case False
    then have "addr < fst b" using Cons.prems(2) by (auto simp: not_less order_less_le)
    moreover have "\<forall>y\<in>set fb. fst b < fst y"
      using Cons.prems(1) block_before_key by auto
    ultimately have "b # fb = [] @ (b # fb) \<and> (\<forall>x\<in>set []. fst x < addr) \<and> (\<forall>y\<in>set (b # fb). addr < fst y)"
      by auto
    then show ?thesis by blast
  qed
qed

lemma map_put_replace:
  "\<forall>x\<in>set pre. fst x < k \<Longrightarrow> map_put k v (pre @ (k, v0) # post) = pre @ (k, v) # post"
proof (induction pre)
  case Nil
  then show ?case by simp
next
  case (Cons x pre)
  then show ?case by (cases x) auto
qed

lemma map_next_at:
  "\<forall>x\<in>set xs. fst x < k \<Longrightarrow> \<forall>y\<in>set ys. k < fst y \<Longrightarrow>
   map_next k (xs @ (k, v) # ys) = (case ys of [] \<Rightarrow> None | y # _ \<Rightarrow> Some y)"
  unfolding map_next_def
proof (induction xs)
  case Nil
  then show ?case by (cases ys) auto
next
  case (Cons x xs)
  then show ?case by auto
qed

lemma map_prev_at:
  assumes "\<forall>x\<in>set xs. fst x < k" "\<forall>y\<in>set ys. k < fst y"
  shows "map_prev k (xs @ (k, v) # ys) = (if xs = [] then None else Some (last xs))"
proof -
  have "filter (\<lambda>b. fst b < k) (xs @ (k, v) # ys) = xs"
    using assms by (auto simp: filter_empty_conv order_less_imp_not_less)
  then show ?thesis unfolding map_prev_def by (cases xs) auto
qed

subsection \<open>alloc\<close>

lemma alloc_tail_fits:
  assumes inv: "free_list_inv a" and p: "ptr a = 0"
    and b: "b \<in> set (freeBlocks a)" and e: "fst b + snd b = peak a"
    and fit: "getAlignedSize a sz \<le> snd b"
  shows "alloc a sz = (Inr (fst b), a\<lparr>freeBlocks := carve b (getAlignedSize a sz) (freeBlocks a),
                                        used := used a + getAlignedSize a sz\<rparr>)"
proof -
  have s: "sorted_wrt block_before (freeBlocks a)"
    and le: "\<forall>x\<in>set (freeBlocks a). unat (fst x) + unat (snd x) \<le> unat (peak a)"
    and al: "alignment a = 8"
    using inv by (auto simp: free_list_inv_def)
  from tail_is_last[OF s le b e]
  have ne: "freeBlocks a \<noteq> []" and l: "last (freeBlocks a) = b"
    and d: "freeBlocks a = butlast (freeBlocks a) @ b # []" by auto
  have s': "sorted_wrt block_before (butlast (freeBlocks a) @ b # [])" using s d by simp
  have c: "(if snd b > getAlignedSize a sz
            then map_put (fst b + getAlignedSize a sz) (snd b - getAlignedSize a sz) (butlast (freeBlocks a))
            else butlast (freeBlocks a)) = carve b (getAlignedSize a sz) (freeBlocks a)"
    using carve_code[OF s', of "peak a" "getAlignedSize a sz"] le b d by auto
  show ?thesis
    unfolding alloc_def using p al ne l e fit c by (simp add: Let_def)
qed

lemma alloc_tail_extends:
  assumes inv: "free_list_inv a" and p: "ptr a = 0"
    and b: "b \<in> set (freeBlocks a)" and e: "fst b + snd b = peak a"
    and small: "snd b < getAlignedSize a sz"
  shows "alloc a sz = (Inr (fst b), a\<lparr>freeBlocks := remove1 b (freeBlocks a),
                                        peak := peak a + (getAlignedSize a sz - snd b),
                                        used := used a + getAlignedSize a sz\<rparr>)"
proof -
  have s: "sorted_wrt block_before (freeBlocks a)"
    and le: "\<forall>x\<in>set (freeBlocks a). unat (fst x) + unat (snd x) \<le> unat (peak a)"
    and al: "alignment a = 8"
    using inv by (auto simp: free_list_inv_def)
  from tail_is_last[OF s le b e]
  have ne: "freeBlocks a \<noteq> []" and l: "last (freeBlocks a) = b"
    and d: "freeBlocks a = butlast (freeBlocks a) @ b # []" by auto
  have s': "sorted_wrt block_before (butlast (freeBlocks a) @ b # [])" using s d by simp
  have "b \<notin> set (butlast (freeBlocks a))" using sorted_split(3)[OF s'] .
  then have "remove1 b (butlast (freeBlocks a) @ [b]) = butlast (freeBlocks a)"
    by (simp add: remove1_append)
  then have r: "remove1 b (freeBlocks a) = butlast (freeBlocks a)" using d by simp
  have nf: "\<not> getAlignedSize a sz \<le> snd b" using small by simp
  show ?thesis
    unfolding alloc_def using p al ne l e nf r by (simp add: Let_def)
qed

lemma alloc_first_fit:
  assumes inv: "free_list_inv a" and p: "ptr a = 0"
    and nt: "\<forall>x\<in>set (freeBlocks a). fst x + snd x \<noteq> peak a"
    and b: "b \<in> set (freeBlocks a)" and fit: "getAlignedSize a sz \<le> snd b"
    and low: "\<forall>x\<in>set (freeBlocks a). getAlignedSize a sz \<le> snd x \<longrightarrow> fst b \<le> fst x"
  shows "alloc a sz = (Inr (fst b), a\<lparr>freeBlocks := carve b (getAlignedSize a sz) (freeBlocks a),
                                        used := used a + getAlignedSize a sz\<rparr>)"
proof -
  have s: "sorted_wrt block_before (freeBlocks a)"
    and le: "\<forall>x\<in>set (freeBlocks a). unat (fst x) + unat (snd x) \<le> unat (peak a)"
    and al: "alignment a = 8"
    using inv by (auto simp: free_list_inv_def)
  obtain pre post where d: "freeBlocks a = pre @ b # post" using b by (meson split_list)
  have s': "sorted_wrt block_before (pre @ b # post)" using s d by simp
  have "\<forall>x\<in>set pre. \<not> getAlignedSize a sz \<le> snd x"
  proof
    fix x assume x: "x \<in> set pre"
    then have "fst x < fst b" using sorted_split(1)[OF s'] block_before_key by blast
    moreover have "x \<in> set (freeBlocks a)" using x d by simp
    ultimately show "\<not> getAlignedSize a sz \<le> snd x" using low by fastforce
  qed
  then have f: "find (\<lambda>x. getAlignedSize a sz \<le> snd x) (freeBlocks a) = Some b"
    unfolding d using fit by (rule find_first)
  have notail: "(freeBlocks a \<noteq> [] \<and> fst (last (freeBlocks a)) + snd (last (freeBlocks a)) = peak a) = False"
    using nt last_in_set by blast
  have er: "map_erase (fst b) (freeBlocks a) = pre @ post" unfolding d by (rule erase_code[OF s'])
  have c: "(if snd b > getAlignedSize a sz
            then map_put (fst b + getAlignedSize a sz) (snd b - getAlignedSize a sz) (pre @ post)
            else pre @ post) = carve b (getAlignedSize a sz) (freeBlocks a)"
    unfolding d using carve_code[OF s', of "peak a" "getAlignedSize a sz"] le b by auto
  show ?thesis
    unfolding alloc_def using p al f er c by (auto simp: Let_def notail split: if_splits)
qed

lemma alloc_extends_arena:
  assumes inv: "free_list_inv a" and p: "ptr a = 0"
    and nt: "\<forall>x\<in>set (freeBlocks a). fst x + snd x \<noteq> peak a"
    and nofit: "\<forall>x\<in>set (freeBlocks a). snd x < getAlignedSize a sz"
  shows "alloc a sz = (Inr (peak a), a\<lparr>peak := peak a + getAlignedSize a sz,
                                         used := used a + getAlignedSize a sz\<rparr>)"
proof -
  have al: "alignment a = 8" using inv by (auto simp: free_list_inv_def)
  have notail: "(freeBlocks a \<noteq> [] \<and> fst (last (freeBlocks a)) + snd (last (freeBlocks a)) = peak a) = False"
    using nt last_in_set by blast
  have "\<not> (\<exists>x. x \<in> set (freeBlocks a) \<and> getAlignedSize a sz \<le> snd x)"
    using nofit by (auto simp: not_le)
  then have f: "find (\<lambda>x. getAlignedSize a sz \<le> snd x) (freeBlocks a) = None"
    by (simp add: find_None_iff)
  show ?thesis
    unfolding alloc_def using p al f by (simp add: Let_def notail)
qed

text \<open>
  C4: in every allocator state that satisfies the free-list invariants and has not handed
  out its pointer, \<open>alloc\<close> rounds the request up to a multiple of the alignment (in
  \<open>size_t\<close> arithmetic), and then: a free block that ends exactly at \<open>peak\<close> is
  carved from its low end when it is large enough (its offset is returned and what
  remains of it stays free), and otherwise its offset is returned, the block leaves the
  free-list and \<open>peak\<close> grows by exactly the shortfall; when no free block ends at
  \<open>peak\<close>, the lowest-offset free block of sufficient size is carved in the same way;
  when there is none either, the old \<open>peak\<close> is returned and \<open>peak\<close> advances by the
  aligned size. In every case \<open>used\<close> grows by the aligned size.
\<close>

theorem alloc_cases:
  assumes "free_list_inv a" "ptr a = 0"
  shows "unat (getAlignedSize a sz) = ((unat sz + 7) div 8 * 8) mod 2 ^ 64 \<and>
     (\<forall>b\<in>set (freeBlocks a). fst b + snd b = peak a \<longrightarrow>
         (getAlignedSize a sz \<le> snd b \<longrightarrow>
            alloc a sz = (Inr (fst b),
              a\<lparr>freeBlocks := carve b (getAlignedSize a sz) (freeBlocks a),
                used := used a + getAlignedSize a sz\<rparr>)) \<and>
         (snd b < getAlignedSize a sz \<longrightarrow>
            alloc a sz = (Inr (fst b),
              a\<lparr>freeBlocks := remove1 b (freeBlocks a),
                peak := peak a + (getAlignedSize a sz - snd b),
                used := used a + getAlignedSize a sz\<rparr>))) \<and>
     ((\<forall>x\<in>set (freeBlocks a). fst x + snd x \<noteq> peak a) \<longrightarrow>
         (\<forall>b\<in>set (freeBlocks a).
            getAlignedSize a sz \<le> snd b \<and>
            (\<forall>x\<in>set (freeBlocks a). getAlignedSize a sz \<le> snd x \<longrightarrow> fst b \<le> fst x) \<longrightarrow>
            alloc a sz = (Inr (fst b),
              a\<lparr>freeBlocks := carve b (getAlignedSize a sz) (freeBlocks a),
                used := used a + getAlignedSize a sz\<rparr>)) \<and>
         ((\<forall>x\<in>set (freeBlocks a). snd x < getAlignedSize a sz) \<longrightarrow>
            alloc a sz = (Inr (peak a),
              a\<lparr>peak := peak a + getAlignedSize a sz,
                used := used a + getAlignedSize a sz\<rparr>)))"
proof -
  have al: "alignment a = 8" using assms(1) by (simp add: free_list_inv_def)
  show ?thesis
    using getAlignedSize_unat[OF al, of sz]
      alloc_tail_fits[OF assms] alloc_tail_extends[OF assms]
      alloc_first_fit[OF assms] alloc_extends_arena[OF assms]
    by blast
qed

theorem alloc_cases_witness:
  "free_list_inv \<lparr>used = 32, peak = 64, alignment = 8, ptr = 0, freeBlocks = [(16, 32)]\<rparr> \<and>
   alloc \<lparr>used = 32, peak = 64, alignment = 8, ptr = 0, freeBlocks = [(16, 32)]\<rparr> 8 =
     (Inr 16, \<lparr>used = 40, peak = 64, alignment = 8, ptr = 0, freeBlocks = [(24, 24)]\<rparr>) \<and>
   free_list_inv \<lparr>used = 16, peak = 48, alignment = 8, ptr = 0, freeBlocks = [(0, 16), (32, 16)]\<rparr> \<and>
   alloc \<lparr>used = 16, peak = 48, alignment = 8, ptr = 0, freeBlocks = [(0, 16), (32, 16)]\<rparr> 5 =
     (Inr 32, \<lparr>used = 24, peak = 48, alignment = 8, ptr = 0, freeBlocks = [(0, 16), (40, 8)]\<rparr>) \<and>
   alloc \<lparr>used = 16, peak = 48, alignment = 8, ptr = 0, freeBlocks = [(0, 16), (32, 16)]\<rparr> 24 =
     (Inr 32, \<lparr>used = 40, peak = 56, alignment = 8, ptr = 0, freeBlocks = [(0, 16)]\<rparr>) \<and>
   alloc \<lparr>used = 16, peak = 64, alignment = 8, ptr = 0, freeBlocks = [(0, 16)]\<rparr> 24 =
     (Inr 64, \<lparr>used = 40, peak = 88, alignment = 8, ptr = 0, freeBlocks = [(0, 16)]\<rparr>)"
proof -
  define a1 :: Allocator where "a1 = \<lparr>used = 32, peak = 64, alignment = 8, ptr = 0, freeBlocks = [(16, 32)]\<rparr>"
  define a2 :: Allocator where "a2 = \<lparr>used = 16, peak = 48, alignment = 8, ptr = 0, freeBlocks = [(0, 16), (32, 16)]\<rparr>"
  define a3 :: Allocator where "a3 = \<lparr>used = 16, peak = 64, alignment = 8, ptr = 0, freeBlocks = [(0, 16)]\<rparr>"
  have i1: "free_list_inv a1" and p1: "ptr a1 = 0"
    by (simp_all add: a1_def free_list_inv_def block_before_def)
  have i2: "free_list_inv a2" and p2: "ptr a2 = 0"
    by (simp_all add: a2_def free_list_inv_def block_before_def)
  have i3: "free_list_inv a3" and p3: "ptr a3 = 0"
    by (simp_all add: a3_def free_list_inv_def block_before_def)
  have g: "getAlignedSize a1 8 = 8" "getAlignedSize a2 5 = 8" "getAlignedSize a2 24 = 24"
      "getAlignedSize a3 24 = 24"
    by (simp_all add: getAlignedSize_def a1_def a2_def a3_def)
  have r1: "alloc a1 8 = (Inr 16, \<lparr>used = 40, peak = 64, alignment = 8, ptr = 0, freeBlocks = [(24, 24)]\<rparr>)"
    using alloc_cases[OF i1 p1, of 8] unfolding g by (simp add: a1_def carve_def)
  have r2: "alloc a2 5 = (Inr 32, \<lparr>used = 24, peak = 48, alignment = 8, ptr = 0, freeBlocks = [(0, 16), (40, 8)]\<rparr>)"
    using alloc_cases[OF i2 p2, of 5] unfolding g by (simp add: a2_def carve_def)
  have r3: "alloc a2 24 = (Inr 32, \<lparr>used = 40, peak = 56, alignment = 8, ptr = 0, freeBlocks = [(0, 16)]\<rparr>)"
    using alloc_cases[OF i2 p2, of 24] unfolding g by (simp add: a2_def)
  have r4: "alloc a3 24 = (Inr 64, \<lparr>used = 40, peak = 88, alignment = 8, ptr = 0, freeBlocks = [(0, 16)]\<rparr>)"
    using alloc_cases[OF i3 p3, of 24] unfolding g by (simp add: a3_def)
  show ?thesis using i1 i2 r1 r2 r3 r4 unfolding a1_def a2_def a3_def by simp
qed

subsection \<open>free\<close>

lemma free_code_blocks:
  fixes a :: Allocator and addr sz :: size_t and xs ys :: "block list"
  assumes p: "ptr a = 0" and al: "alignment a = 8"
    and d: "freeBlocks a = xs @ ys"
    and lx: "\<forall>x\<in>set xs. fst x < addr" and ly: "\<forall>y\<in>set ys. addr < fst y"
    and so: "sorted_wrt block_before (xs @ ys)"
  defines "s \<equiv> getAlignedSize a sz"
  defines "L \<equiv> (xs \<noteq> [] \<and> fst (last xs) + snd (last xs) = addr)"
  defines "R \<equiv> (ys \<noteq> [] \<and> fst (hd ys) = addr + s)"
  shows "free a addr sz =
    (Inr (), a\<lparr>used := used a - s,
               freeBlocks := (if L then butlast xs else xs) @
                  [(if L then fst (last xs) else addr,
                    (if L then snd (last xs) else 0) + s + (if R then snd (hd ys) else 0))] @
                  (if R then tl ys else ys)\<rparr>)"
proof -
  define s2 where "s2 = s + (if R then snd (hd ys) else 0)"
  define ys2 where "ys2 = (if R then tl ys else ys)"
  have ly2: "\<forall>y\<in>set ys2. addr < fst y"
    using ly by (cases ys) (auto simp: ys2_def)
  have f1: "map_put addr s (freeBlocks a) = xs @ (addr, s) # ys"
    unfolding d using lx ly by (rule map_put_between)
  have f2: "map_next addr (xs @ (addr, s) # ys) = (case ys of [] \<Rightarrow> None | y # _ \<Rightarrow> Some y)"
    using lx ly by (rule map_next_at)
  have step2: "merge_next addr s (xs @ (addr, s) # ys) = (s2, xs @ (addr, s2) # ys2)"
  proof (cases ys)
    case Nil
    then show ?thesis using f2 by (simp add: merge_next_def s2_def ys2_def R_def)
  next
    case (Cons y ys')
    show ?thesis
    proof (cases "addr + s = fst y")
      case False
      then show ?thesis using Cons f2 by (auto simp: merge_next_def s2_def ys2_def R_def)
    next
      case True
      have "\<forall>x\<in>set (xs @ [(addr, s)]). fst x \<noteq> fst y"
        using lx ly Cons by fastforce
      then have "map_erase (fst y) ((xs @ [(addr, s)]) @ (fst y, snd y) # ys') = (xs @ [(addr, s)]) @ ys'"
        by (rule map_erase_at)
      then have e: "map_erase (fst y) (xs @ (addr, s) # y # ys') = xs @ (addr, s) # ys'" by simp
      have "map_put addr (s + snd y) (xs @ (addr, s) # ys') = xs @ (addr, s + snd y) # ys'"
        using lx by (rule map_put_replace)
      then show ?thesis using Cons True e f2 by (simp add: merge_next_def s2_def ys2_def R_def)
    qed
  qed
  have f4: "map_prev addr (xs @ (addr, s2) # ys2) = (if xs = [] then None else Some (last xs))"
    using lx ly2 by (rule map_prev_at)
  have step3: "merge_prev addr s2 (xs @ (addr, s2) # ys2) =
             (if L then butlast xs else xs) @
               [(if L then fst (last xs) else addr, (if L then snd (last xs) else 0) + s2)] @ ys2"
  proof (cases xs rule: rev_cases)
    case Nil
    then show ?thesis using f4 by (simp add: merge_prev_def L_def)
  next
    case (snoc xs' x)
    show ?thesis
    proof (cases "fst x + snd x = addr")
      case False
      then show ?thesis using snoc f4 by (simp add: merge_prev_def L_def)
    next
      case True
      have sx: "sorted_wrt block_before (xs' @ x # ys)" using so snoc by simp
      have "\<forall>z\<in>set xs'. fst z < fst x"
        using sorted_split(1)[OF sx] block_before_key by blast
      then have "map_put (fst x) (snd x + s2) (xs' @ (fst x, snd x) # (addr, s2) # ys2) =
                 xs' @ (fst x, snd x + s2) # (addr, s2) # ys2"
        by (rule map_put_replace)
      then have pu: "map_put (fst x) (snd x + s2) (xs @ (addr, s2) # ys2) =
                 xs' @ (fst x, snd x + s2) # (addr, s2) # ys2"
        using snoc by simp
      have "\<forall>z\<in>set (xs' @ [(fst x, snd x + s2)]). fst z \<noteq> addr"
        using lx snoc by fastforce
      then have "map_erase addr ((xs' @ [(fst x, snd x + s2)]) @ (addr, s2) # ys2) =
                 (xs' @ [(fst x, snd x + s2)]) @ ys2"
        by (rule map_erase_at)
      then have "map_erase addr (xs' @ (fst x, snd x + s2) # (addr, s2) # ys2) =
                 xs' @ (fst x, snd x + s2) # ys2"
        by simp
      then show ?thesis using snoc True pu f4 by (simp add: merge_prev_def L_def)
    qed
  qed
  have "free a addr sz = (Inr (), a\<lparr>used := used a - s,
          freeBlocks := (if L then butlast xs else xs) @
               [(if L then fst (last xs) else addr, (if L then snd (last xs) else 0) + s2)] @ ys2\<rparr>)"
    unfolding free_def using p al
    by (simp add: Let_def s_def[symmetric] f1 step2 step3)
  then show ?thesis by (simp add: s2_def ys2_def add.assoc)
qed

lemma unat_add3:
  fixes x y z :: "64 word"
  assumes "unat x + unat y + unat z \<le> unat (pk :: 64 word)"
  shows "unat (x + y + z) = unat x + unat y + unat z"
proof -
  have pk: "unat pk < 2 ^ LENGTH(64)" by (rule unsigned_less)
  have "unat x + unat y < 2 ^ LENGTH(64)" using assms pk by linarith
  then have 1: "unat (x + y) = unat x + unat y" by (rule unat_add_lem[THEN iffD1])
  have "unat (x + y) + unat z < 2 ^ LENGTH(64)" using assms pk 1 by linarith
  then have "unat (x + y + z) = unat (x + y) + unat z" by (rule unat_add_lem[THEN iffD1])
  then show ?thesis using 1 by simp
qed

lemma unat_add2:
  fixes x y :: "64 word"
  assumes "unat x + unat y \<le> unat (pk :: 64 word)"
  shows "unat (x + y) = unat x + unat y"
  using unat_add3[of x y 0 pk] assms by simp

text \<open>The situation of a live block between the free blocks below and above it.\<close>

lemma live_facts:
  fixes a :: Allocator and addr s :: size_t and xs ys :: "block list"
  assumes le: "\<forall>b\<in>set (xs @ ys). unat (fst b) + unat (snd b) \<le> unat (peak a)"
    and live: "unat addr + unat s \<le> unat (peak a)"
       "\<forall>b\<in>set (xs @ ys). unat (fst b) + unat (snd b) \<le> unat addr \<or> unat addr + unat s \<le> unat (fst b)"
    and lx: "\<forall>x\<in>set xs. fst x < addr" and ly: "\<forall>y\<in>set ys. addr < fst y"
  shows "unat (addr + s) = unat addr + unat s"
    and "\<forall>x\<in>set xs. unat (fst x) + unat (snd x) \<le> unat addr"
    and "\<forall>y\<in>set ys. unat addr + unat s \<le> unat (fst y)"
    and "\<forall>b\<in>set (xs @ ys). unat (fst b + snd b) = unat (fst b) + unat (snd b)"
proof -
  show "unat (addr + s) = unat addr + unat s" using live(1) by (rule unat_add2)
  show "\<forall>x\<in>set xs. unat (fst x) + unat (snd x) \<le> unat addr"
  proof
    fix x assume x: "x \<in> set xs"
    then have "unat (fst x) < unat addr" using lx by (simp add: word_less_nat_alt)
    moreover have "unat (fst x) + unat (snd x) \<le> unat addr \<or> unat addr + unat s \<le> unat (fst x)"
      using live(2) x by simp
    ultimately show "unat (fst x) + unat (snd x) \<le> unat addr" by linarith
  qed
  show "\<forall>y\<in>set ys. unat addr + unat s \<le> unat (fst y)"
  proof
    fix y assume y: "y \<in> set ys"
    then have "unat addr < unat (fst y)" using ly by (simp add: word_less_nat_alt)
    moreover have "unat (fst y) + unat (snd y) \<le> unat addr \<or> unat addr + unat s \<le> unat (fst y)"
      using live(2) y by simp
    ultimately show "unat addr + unat s \<le> unat (fst y)" by linarith
  qed
  show "\<forall>b\<in>set (xs @ ys). unat (fst b + snd b) = unat (fst b) + unat (snd b)"
    using le unat_add2 by blast
qed

lemma find_none: "\<forall>x\<in>set xs. \<not> P x \<Longrightarrow> find P xs = None"
  by (simp add: find_None_iff)

lemma find_append_none: "\<forall>x\<in>set xs. \<not> P x \<Longrightarrow> find P (xs @ ys) = find P ys"
  by (induction xs) auto

lemma find_append_none2: "\<forall>y\<in>set ys. \<not> P y \<Longrightarrow> find P (xs @ ys) = find P xs"
  by (induction xs) (auto simp: find_None_iff)

lemma neighbors_char:
  fixes a :: Allocator and addr s :: size_t and xs ys :: "block list"
  assumes so: "sorted_wrt block_before (xs @ ys)"
    and le: "\<forall>b\<in>set (xs @ ys). unat (fst b) + unat (snd b) \<le> unat (peak a)"
    and live: "unat addr + unat s \<le> unat (peak a)"
       "\<forall>b\<in>set (xs @ ys). unat (fst b) + unat (snd b) \<le> unat addr \<or> unat addr + unat s \<le> unat (fst b)"
    and lx: "\<forall>x\<in>set xs. fst x < addr" and ly: "\<forall>y\<in>set ys. addr < fst y"
  shows "right_neighbor (xs @ ys) addr s = (if ys \<noteq> [] \<and> fst (hd ys) = addr + s then Some (hd ys) else None)"
    and "left_neighbor (xs @ ys) addr = (if xs \<noteq> [] \<and> fst (last xs) + snd (last xs) = addr then Some (last xs) else None)"
proof -
  note lf = live_facts[OF le live lx ly]
  have x_no: "\<forall>x\<in>set xs. \<not> fst x = addr + s"
  proof
    fix x assume "x \<in> set xs"
    then have "unat (fst x) < unat addr" using lx by (simp add: word_less_nat_alt)
    then have "unat (fst x) \<noteq> unat (addr + s)" using lf(1) by simp
    then show "\<not> fst x = addr + s" by auto
  qed
  have r1: "right_neighbor (xs @ ys) addr s = find (\<lambda>b. fst b = addr + s) ys"
    unfolding right_neighbor_def using x_no by (rule find_append_none)
  have r2: "find (\<lambda>b. fst b = addr + s) ys = (if ys \<noteq> [] \<and> fst (hd ys) = addr + s then Some (hd ys) else None)"
  proof (cases ys)
    case Nil
    then show ?thesis by simp
  next
    case (Cons y ys')
    show ?thesis
    proof (cases "fst y = addr + s")
      case True
      then show ?thesis using Cons by simp
    next
      case False
      have "\<forall>w\<in>set ys'. \<not> fst w = addr + s"
      proof
        fix w assume w: "w \<in> set ys'"
        have "block_before y w" using so Cons w by (auto simp: sorted_wrt_append)
        then have "unat (fst y) < unat (fst w)" by (simp add: block_before_def)
        moreover have "unat addr + unat s \<le> unat (fst y)" using lf(3) Cons by simp
        ultimately have "unat (fst w) \<noteq> unat (addr + s)" using lf(1) by simp
        then show "\<not> fst w = addr + s" by auto
      qed
      then have "find (\<lambda>b. fst b = addr + s) ys' = None" by (rule find_none)
      then show ?thesis using Cons False by simp
    qed
  qed
  show "right_neighbor (xs @ ys) addr s = (if ys \<noteq> [] \<and> fst (hd ys) = addr + s then Some (hd ys) else None)"
    using r1 r2 by simp
  have y_no: "\<forall>y\<in>set ys. \<not> fst y + snd y = addr"
  proof
    fix y assume y: "y \<in> set ys"
    then have "unat addr < unat (fst y)" using ly by (simp add: word_less_nat_alt)
    moreover have "unat (fst y + snd y) = unat (fst y) + unat (snd y)" using lf(4) y by simp
    ultimately have "unat (fst y + snd y) \<noteq> unat addr" by simp
    then show "\<not> fst y + snd y = addr" by auto
  qed
  have l1: "left_neighbor (xs @ ys) addr = find (\<lambda>b. fst b + snd b = addr) xs"
    unfolding left_neighbor_def using y_no by (rule find_append_none2)
  have l2: "find (\<lambda>b. fst b + snd b = addr) xs =
            (if xs \<noteq> [] \<and> fst (last xs) + snd (last xs) = addr then Some (last xs) else None)"
  proof (cases xs rule: rev_cases)
    case Nil
    then show ?thesis by simp
  next
    case (snoc xs' x)
    have no: "\<forall>z\<in>set xs'. \<not> fst z + snd z = addr"
    proof
      fix z assume z: "z \<in> set xs'"
      have "block_before z x" using so snoc z by (auto simp: sorted_wrt_append)
      then have "unat (fst z) + unat (snd z) < unat (fst x)" by (simp add: block_before_def)
      moreover have "unat (fst x) < unat addr" using lx snoc by (simp add: word_less_nat_alt)
      moreover have "unat (fst z + snd z) = unat (fst z) + unat (snd z)" using lf(4) z snoc by simp
      ultimately have "unat (fst z + snd z) \<noteq> unat addr" by simp
      then show "\<not> fst z + snd z = addr" by auto
    qed
    then have "find (\<lambda>b. fst b + snd b = addr) (xs' @ [x]) = find (\<lambda>b. fst b + snd b = addr) [x]"
      by (rule find_append_none)
    then show ?thesis using snoc by simp
  qed
  show "left_neighbor (xs @ ys) addr = (if xs \<noteq> [] \<and> fst (last xs) + snd (last xs) = addr then Some (last xs) else None)"
    using l1 l2 by simp
qed

lemma free_result_sorted:
  fixes a :: Allocator and addr s :: size_t and xs ys :: "block list"
  assumes so: "sorted_wrt block_before (xs @ ys)"
    and le: "\<forall>b\<in>set (xs @ ys). unat (fst b) + unat (snd b) \<le> unat (peak a)"
    and live: "unat addr + unat s \<le> unat (peak a)"
       "\<forall>b\<in>set (xs @ ys). unat (fst b) + unat (snd b) \<le> unat addr \<or> unat addr + unat s \<le> unat (fst b)"
    and lx: "\<forall>x\<in>set xs. fst x < addr" and ly: "\<forall>y\<in>set ys. addr < fst y"
  defines "L \<equiv> (xs \<noteq> [] \<and> fst (last xs) + snd (last xs) = addr)"
  defines "R \<equiv> (ys \<noteq> [] \<and> fst (hd ys) = addr + s)"
  defines "m \<equiv> (if L then fst (last xs) else addr,
                  (if L then snd (last xs) else 0) + s + (if R then snd (hd ys) else 0))"
  shows "sorted_wrt block_before ((if L then butlast xs else xs) @ [m] @ (if R then tl ys else ys))"
    and "unat (fst m) + unat (snd m) \<le> unat (peak a)"
proof -
  note lf = live_facts[OF le live lx ly]
  define xs2 where "xs2 = (if L then butlast xs else xs)"
  define ys2 where "ys2 = (if R then tl ys else ys)"
  have lastx: "last xs \<in> set xs" if "xs \<noteq> []" using that by simp
  have hdy: "hd ys \<in> set ys" if "ys \<noteq> []" using that by simp
  have Lnat: "unat (fst (last xs)) + unat (snd (last xs)) = unat addr" if L
  proof -
    have "last xs \<in> set (xs @ ys)" using that lastx by (simp add: L_def)
    then have "unat (fst (last xs) + snd (last xs)) = unat (fst (last xs)) + unat (snd (last xs))"
      using lf(4) by blast
    then show ?thesis using that by (simp add: L_def)
  qed
  have Rnat: "unat (fst (hd ys)) = unat addr + unat s" if R
    using that lf(1) by (simp add: R_def)
  have Rend: "unat (fst (hd ys)) + unat (snd (hd ys)) \<le> unat (peak a)" if R
  proof -
    have "hd ys \<in> set (xs @ ys)" using that hdy by (simp add: R_def)
    then show ?thesis using le by blast
  qed
  have bound: "(if L then unat (snd (last xs)) else 0) + unat s + (if R then unat (snd (hd ys)) else 0)
                 \<le> unat (peak a)"
    using Lnat Rnat Rend live(1) by (cases L; cases R) auto
  have "unat ((if L then snd (last xs) else 0)) + unat s + unat (if R then snd (hd ys) else 0)
                 \<le> unat (peak a)"
    using bound by (cases L; cases R) auto
  then have "unat ((if L then snd (last xs) else 0) + s + (if R then snd (hd ys) else 0)) =
        unat ((if L then snd (last xs) else 0)) + unat s + unat (if R then snd (hd ys) else 0)"
    by (rule unat_add3)
  then have sm: "unat (snd m) =
        (if L then unat (snd (last xs)) else 0) + unat s + (if R then unat (snd (hd ys)) else 0)"
    by (cases L; cases R) (auto simp: m_def)
  have fm: "unat (fst m) = (if L then unat (fst (last xs)) else unat addr)"
    by (simp add: m_def)
  have em: "unat (fst m) + unat (snd m) = unat addr + unat s + (if R then unat (snd (hd ys)) else 0)"
    using sm fm Lnat by (cases L) auto
  show "unat (fst m) + unat (snd m) \<le> unat (peak a)"
    using em Rnat Rend live(1) by (cases R) auto
  have Fx: "\<forall>x\<in>set xs2. block_before x m"
  proof
    fix x assume x: "x \<in> set xs2"
    show "block_before x m"
    proof (cases L)
      case True
      then obtain xs' z where d: "xs = xs' @ [z]" by (cases xs rule: rev_cases) (auto simp: L_def)
      then have "x \<in> set xs'" using x True by (simp add: xs2_def)
      then have "block_before x z" using so d by (auto simp: sorted_wrt_append)
      then show ?thesis using True d by (simp add: block_before_def m_def)
    next
      case False
      then have xin: "x \<in> set xs" using x by (simp add: xs2_def)
      then obtain xs' z where d: "xs = xs' @ [z]" by (cases xs rule: rev_cases) auto
      have "unat (fst x) + unat (snd x) < unat addr"
      proof (cases "x = z")
        case True
        have "unat (fst z + snd z) \<noteq> unat addr" using False d by (auto simp: L_def word_unat_eq_iff)
        moreover have "unat (fst z + snd z) = unat (fst z) + unat (snd z)" using lf(4) d by simp
        moreover have "unat (fst z) + unat (snd z) \<le> unat addr" using lf(2) d by simp
        ultimately show ?thesis using True by simp
      next
        case ne: False
        then have "x \<in> set xs'" using xin d by simp
        then have "block_before x z" using so d by (auto simp: sorted_wrt_append)
        moreover have "unat (fst z) < unat addr" using lx d by (simp add: word_less_nat_alt)
        ultimately show ?thesis by (simp add: block_before_def)
      qed
      then show ?thesis using False by (simp add: block_before_def m_def)
    qed
  qed
  have Fy: "\<forall>y\<in>set ys2. block_before m y"
  proof
    fix y assume y: "y \<in> set ys2"
    show "block_before m y"
    proof (cases R)
      case True
      then obtain y0 ys' where d: "ys = y0 # ys'" by (cases ys) (auto simp: R_def)
      then have "y \<in> set ys'" using y True by (simp add: ys2_def)
      then have "block_before y0 y" using so d by (auto simp: sorted_wrt_append)
      moreover have "unat (fst m) + unat (snd m) = unat (fst y0) + unat (snd y0)"
        using em True Rnat d by simp
      ultimately show ?thesis by (simp add: block_before_def)
    next
      case False
      then have yin: "y \<in> set ys" using y by (simp add: ys2_def)
      then obtain y0 ys' where d: "ys = y0 # ys'" by (cases ys) auto
      have "unat addr + unat s < unat (fst y)"
      proof (cases "y = y0")
        case True
        have "unat (fst y0) \<noteq> unat (addr + s)" using False d by (auto simp: R_def word_unat_eq_iff)
        moreover have "unat addr + unat s \<le> unat (fst y0)" using lf(3) d by simp
        ultimately show ?thesis using True lf(1) by simp
      next
        case ne: False
        then have "y \<in> set ys'" using yin d by simp
        then have "block_before y0 y" using so d by (auto simp: sorted_wrt_append)
        moreover have "unat addr + unat s \<le> unat (fst y0)" using lf(3) d by simp
        ultimately show ?thesis by (simp add: block_before_def)
      qed
      then show ?thesis using em False by (simp add: block_before_def)
    qed
  qed
  have sx: "sorted_wrt block_before xs2"
  proof -
    have "sorted_wrt block_before xs" using so by (simp add: sorted_wrt_append)
    then show ?thesis
      by (cases xs rule: rev_cases) (auto simp: xs2_def sorted_wrt_append)
  qed
  have sy: "sorted_wrt block_before ys2"
  proof -
    have "sorted_wrt block_before ys" using so by (simp add: sorted_wrt_append)
    then show ?thesis by (cases ys) (auto simp: ys2_def)
  qed
  have xy: "\<forall>x\<in>set xs2. \<forall>y\<in>set ys2. block_before x y"
  proof (intro ballI)
    fix x y assume "x \<in> set xs2" "y \<in> set ys2"
    then have "x \<in> set xs" "y \<in> set ys"
      by (cases ys; auto simp: xs2_def ys2_def dest: in_set_butlastD split: if_splits)+
    then show "block_before x y" using so by (auto simp: sorted_wrt_append)
  qed
  have "sorted_wrt block_before (xs2 @ [m] @ ys2)"
    using sx sy xy Fx Fy by (auto simp: sorted_wrt_append)
  then show "sorted_wrt block_before ((if L then butlast xs else xs) @ [m] @ (if R then tl ys else ys))"
    by (simp add: xs2_def ys2_def)
qed

lemma free_result_set:
  fixes xs ys :: "block list"
  assumes so: "sorted_wrt block_before (xs @ ys)"
    and Lx: "L \<Longrightarrow> xs \<noteq> []" and Ry: "R \<Longrightarrow> ys \<noteq> []"
  shows "set ((if L then butlast xs else xs) @ [m] @ (if R then tl ys else ys)) =
         (set (xs @ ys) - (if L then {last xs} else {}) - (if R then {hd ys} else {})) \<union> {m}"
proof -
  have dx: "set (butlast xs) = set xs - {last xs}" "last xs \<notin> set ys" if nex: "xs \<noteq> []"
  proof -
    obtain xs' z where d: "xs = xs' @ [z]" using nex by (cases xs rule: rev_cases) auto
    have "z \<notin> set xs'" using so d sorted_split(3)[of xs' z ys] by simp
    then show "set (butlast xs) = set xs - {last xs}" using d by auto
    show "last xs \<notin> set ys" using so d sorted_split(4)[of xs' z ys] by simp
  qed
  have dy: "set (tl ys) = set ys - {hd ys}" "hd ys \<notin> set xs" if ney: "ys \<noteq> []"
  proof -
    obtain y0 ys' where d: "ys = y0 # ys'" using ney by (cases ys) auto
    have s': "sorted_wrt block_before (xs @ y0 # ys')" using so d by simp
    have "y0 \<notin> set ys'" using s' by (rule sorted_split(4))
    then show "set (tl ys) = set ys - {hd ys}" using d by auto
    have "y0 \<notin> set xs" using s' by (rule sorted_split(3))
    then show "hd ys \<notin> set xs" using d by simp
  qed
  have x: "set (if L then butlast xs else xs) = set xs - (if L then {last xs} else {})"
    using dx(1) Lx by simp
  have y: "set (if R then tl ys else ys) = set ys - (if R then {hd ys} else {})"
    using dy(1) Ry by simp
  have nx: "(if L then {last xs} else {}) \<inter> set ys = {}" using dx(2) Lx by simp
  have ny: "(if R then {hd ys} else {}) \<inter> set xs = {}" using dy(2) Ry by simp
  have "set ((if L then butlast xs else xs) @ [m] @ (if R then tl ys else ys)) =
        (set xs - (if L then {last xs} else {})) \<union> {m} \<union> (set ys - (if R then {hd ys} else {}))"
    unfolding set_append x y by simp
  also have "\<dots> = (set (xs @ ys) - (if L then {last xs} else {}) - (if R then {hd ys} else {})) \<union> {m}"
    using nx ny unfolding set_append by blast
  finally show ?thesis .
qed

text \<open>
  C5: \<open>free (addr, size)\<close> rounds the size up to a multiple of the alignment and
  decrements \<open>used\<close> by that amount. When the state satisfies the free-list invariants
  and the block freed is live, the free-list afterwards is the free-list before, without
  the free block that starts at \<open>addr + size\<close> (the right neighbour) and without the
  free block that ends at \<open>addr\<close> (the left neighbour), and with the freed block joined
  with those of the two that exist; it is again in offset order, pairwise disjoint and not
  adjacent. After three allocations of 16 bytes, at offsets 0, 16 and 32, and
  \<open>free (0, 16)\<close>, \<open>free (32, 16)\<close>, \<open>free (16, 16)\<close>, the free-list is the single
  block \<open>(0, 48)\<close>, \<open>used\<close> is 0 and \<open>peak\<close> is 48.
\<close>

theorem free_coalesces:
  "(free_list_inv a \<and> ptr a = 0 \<and> live_block a addr (getAlignedSize a sz) \<longrightarrow>
      unat (getAlignedSize a sz) = ((unat sz + 7) div 8 * 8) mod 2 ^ 64 \<and>
      (\<exists>fb'. free a addr sz =
                (Inr (), a\<lparr>used := used a - getAlignedSize a sz, freeBlocks := fb'\<rparr>) \<and>
             set fb' =
               set (freeBlocks a)
                 - set_option (left_neighbor (freeBlocks a) addr)
                 - set_option (right_neighbor (freeBlocks a) addr (getAlignedSize a sz))
                 \<union> {coalesced (freeBlocks a) addr (getAlignedSize a sz)} \<and>
             sorted_wrt block_before fb'))
   \<and> (case alloc Allocator_new 16 of (r1, a1) \<Rightarrow>
        case alloc a1 16 of (r2, a2) \<Rightarrow>
        case alloc a2 16 of (r3, a3) \<Rightarrow>
        case free a3 0 16 of (r4, a4) \<Rightarrow>
        case free a4 32 16 of (r5, a5) \<Rightarrow>
        case free a5 16 16 of (r6, a6) \<Rightarrow>
          r1 = Inr 0 \<and> r2 = Inr 16 \<and> r3 = Inr 32 \<and>
          r4 = Inr () \<and> r5 = Inr () \<and> r6 = Inr () \<and>
          freeBlocks a6 = [(0, 48)] \<and> used a6 = 0 \<and> peak a6 = 48)"
proof (intro conjI impI)
  assume h: "free_list_inv a \<and> ptr a = 0 \<and> live_block a addr (getAlignedSize a sz)"
  define s where "s = getAlignedSize a sz"
  have al: "alignment a = 8" and so: "sorted_wrt block_before (freeBlocks a)"
    and le: "\<forall>b\<in>set (freeBlocks a). unat (fst b) + unat (snd b) \<le> unat (peak a)"
    using h by (auto simp: free_list_inv_def)
  have p: "ptr a = 0" using h by simp
  have lv: "unat addr + unat s \<le> unat (peak a)"
      "\<forall>b\<in>set (freeBlocks a). unat (fst b) + unat (snd b) \<le> unat addr \<or> unat addr + unat s \<le> unat (fst b)"
      "\<forall>b\<in>set (freeBlocks a). fst b \<noteq> addr"
    using h by (auto simp: live_block_def s_def)
  show "unat (getAlignedSize a sz) = ((unat sz + 7) div 8 * 8) mod 2 ^ 64"
    using al by (rule getAlignedSize_unat)
  from split_at_key[OF so lv(3)] obtain xs ys where
    d: "freeBlocks a = xs @ ys" and lx: "\<forall>x\<in>set xs. fst x < addr" and ly: "\<forall>y\<in>set ys. addr < fst y"
    by blast
  have so': "sorted_wrt block_before (xs @ ys)" using so d by simp
  have le': "\<forall>b\<in>set (xs @ ys). unat (fst b) + unat (snd b) \<le> unat (peak a)" using le d by simp
  have lv2: "\<forall>b\<in>set (xs @ ys). unat (fst b) + unat (snd b) \<le> unat addr \<or> unat addr + unat s \<le> unat (fst b)"
    using lv(2) d by simp
  define L where "L = (xs \<noteq> [] \<and> fst (last xs) + snd (last xs) = addr)"
  define R where "R = (ys \<noteq> [] \<and> fst (hd ys) = addr + s)"
  define m where "m = (if L then fst (last xs) else addr,
                  (if L then snd (last xs) else 0) + s + (if R then snd (hd ys) else 0))"
  define fb' where "fb' = (if L then butlast xs else xs) @ [m] @ (if R then tl ys else ys)"
  have fr: "free a addr sz = (Inr (), a\<lparr>used := used a - s, freeBlocks := fb'\<rparr>)"
    using free_code_blocks[OF p al d lx ly so', of sz]
    by (simp add: fb'_def m_def L_def R_def s_def)
  have rn: "right_neighbor (freeBlocks a) addr s = (if R then Some (hd ys) else None)"
    and ln: "left_neighbor (freeBlocks a) addr = (if L then Some (last xs) else None)"
    using neighbors_char[OF so' le' lv(1) lv2 lx ly] by (simp_all add: d L_def R_def)
  have co: "coalesced (freeBlocks a) addr s = m"
    by (simp add: coalesced_def rn ln m_def Let_def)
  have st: "set fb' = set (freeBlocks a) - set_option (left_neighbor (freeBlocks a) addr)
                 - set_option (right_neighbor (freeBlocks a) addr s) \<union> {coalesced (freeBlocks a) addr s}"
  proof -
    have so1: "set_option (left_neighbor (freeBlocks a) addr) = (if L then {last xs} else {})"
      by (simp add: ln)
    have so2: "set_option (right_neighbor (freeBlocks a) addr s) = (if R then {hd ys} else {})"
      by (simp add: rn)
    have "set fb' = (set (xs @ ys) - (if L then {last xs} else {}) - (if R then {hd ys} else {})) \<union> {m}"
      unfolding fb'_def by (rule free_result_set[OF so']) (simp_all add: L_def R_def)
    then show ?thesis using so1 so2 co d by simp
  qed
  have sr: "sorted_wrt block_before fb'"
    unfolding fb'_def m_def L_def R_def
    by (rule free_result_sorted(1)[OF so' le' lv(1) lv2 lx ly])
  show "\<exists>fb'. free a addr sz =
                (Inr (), a\<lparr>used := used a - getAlignedSize a sz, freeBlocks := fb'\<rparr>) \<and>
             set fb' =
               set (freeBlocks a)
                 - set_option (left_neighbor (freeBlocks a) addr)
                 - set_option (right_neighbor (freeBlocks a) addr (getAlignedSize a sz))
                 \<union> {coalesced (freeBlocks a) addr (getAlignedSize a sz)} \<and>
             sorted_wrt block_before fb'"
    using fr st sr unfolding s_def by blast
next
  show "case alloc Allocator_new 16 of (r1, a1) \<Rightarrow>
        case alloc a1 16 of (r2, a2) \<Rightarrow>
        case alloc a2 16 of (r3, a3) \<Rightarrow>
        case free a3 0 16 of (r4, a4) \<Rightarrow>
        case free a4 32 16 of (r5, a5) \<Rightarrow>
        case free a5 16 16 of (r6, a6) \<Rightarrow>
          r1 = Inr 0 \<and> r2 = Inr 16 \<and> r3 = Inr 32 \<and>
          r4 = Inr () \<and> r5 = Inr () \<and> r6 = Inr () \<and>
          freeBlocks a6 = [(0, 48)] \<and> used a6 = 0 \<and> peak a6 = 48"
    by (simp add: alloc_def free_def Allocator_new_def getAlignedSize_def Let_def
        merge_next_def merge_prev_def map_next_def map_prev_def)
qed

theorem free_coalesces_witness:
  "free_list_inv \<lparr>used = 16, peak = 48, alignment = 8, ptr = 0, freeBlocks = [(0, 16), (32, 16)]\<rparr> \<and>
   live_block \<lparr>used = 16, peak = 48, alignment = 8, ptr = 0, freeBlocks = [(0, 16), (32, 16)]\<rparr> 16 16 \<and>
   (\<exists>fb'. free \<lparr>used = 16, peak = 48, alignment = 8, ptr = 0, freeBlocks = [(0, 16), (32, 16)]\<rparr> 16 13 =
            (Inr (), \<lparr>used = 0, peak = 48, alignment = 8, ptr = 0, freeBlocks = fb'\<rparr>) \<and>
          set fb' = {(0, 48)} \<and> sorted_wrt block_before fb')"
proof -
  define a :: Allocator where "a = \<lparr>used = 16, peak = 48, alignment = 8, ptr = 0, freeBlocks = [(0, 16), (32, 16)]\<rparr>"
  have i: "free_list_inv a" and p: "ptr a = 0"
    by (simp_all add: a_def free_list_inv_def block_before_def)
  have g: "getAlignedSize a 13 = 16" by (simp add: getAlignedSize_def a_def)
  have l: "live_block a 16 16" by (simp add: live_block_def a_def)
  have n: "left_neighbor (freeBlocks a) 16 = Some (0, 16)" "right_neighbor (freeBlocks a) 16 16 = Some (32, 16)"
    by (simp_all add: left_neighbor_def right_neighbor_def a_def)
  have c: "coalesced (freeBlocks a) 16 16 = (0, 48)"
    by (simp add: coalesced_def n)
  have s: "set (freeBlocks a) - {(0, 16)} - {(32, 16)} \<union> {(0, 48)} = {(0, 48 :: size_t)}"
    by (auto simp: a_def)
  from free_coalesces[of a 16 13] i p l g
  have "\<exists>fb'. free a 16 13 = (Inr (), a\<lparr>used := used a - 16, freeBlocks := fb'\<rparr>) \<and>
             set fb' = set (freeBlocks a) - set_option (left_neighbor (freeBlocks a) 16)
                 - set_option (right_neighbor (freeBlocks a) 16 16)
                 \<union> {coalesced (freeBlocks a) 16 16} \<and>
             sorted_wrt block_before fb'"
    by simp
  then obtain fb' where f: "free a 16 13 = (Inr (), a\<lparr>used := used a - 16, freeBlocks := fb'\<rparr>)"
    "set fb' = {(0, 48)}" "sorted_wrt block_before fb'"
    unfolding n c using s by auto
  have "free a 16 13 = (Inr (), \<lparr>used = 0, peak = 48, alignment = 8, ptr = 0, freeBlocks = fb'\<rparr>)"
    using f(1) by (simp add: a_def)
  then show ?thesis using i l f(2,3) unfolding a_def by blast
qed

subsection \<open>Use after commit\<close>

text \<open>
  C8: once the cached pointer is set, \<open>alloc\<close> and \<open>free\<close> fail the assertion that it
  is unset and leave the allocator as it was, and \<open>getPtr\<close> returns the cached pointer
  without a request to the runtime. While the pointer is unset, \<open>getPtr\<close> asks the
  runtime for exactly \<open>peak\<close> bytes, once, and caches what it gets; if that is not the
  null pointer, every later call returns it and touches neither the runtime nor the
  allocator.
\<close>

theorem use_after_commit:
  "(ptr a \<noteq> 0 \<longrightarrow>
      alloc a sz = (Inl AssertionFailed, a) \<and> free a addr sz = (Inl AssertionFailed, a) \<and>
      getPtr place rt a = (ptr a, rt, a))
   \<and> (ptr a = 0 \<longrightarrow>
        getPtr place rt a =
          (place rt (peak a), rt\<lparr>requested := requested rt @ [peak a]\<rparr>,
           a\<lparr>ptr := place rt (peak a)\<rparr>))
   \<and> (ptr a = 0 \<and> place rt (peak a) \<noteq> 0 \<longrightarrow>
        (case getPtr place rt a of
           (p, rt1, a1) \<Rightarrow>
             p \<noteq> 0 \<and> ptr a1 = p \<and> requested rt1 = requested rt @ [peak a] \<and>
             getPtr place rt1 a1 = (p, rt1, a1) \<and>
             alloc a1 sz = (Inl AssertionFailed, a1) \<and>
             free a1 addr sz = (Inl AssertionFailed, a1)))"
  by (simp add: alloc_def free_def getPtr_def runtime_alloc_def)

theorem use_after_commit_witness:
  "ptr \<lparr>used = 48, peak = 48, alignment = 8, ptr = 0, freeBlocks = []\<rparr> = 0 \<and>
   (case getPtr (\<lambda>_ _. 4096) \<lparr>requested = []\<rparr>
           \<lparr>used = 48, peak = 48, alignment = 8, ptr = 0, freeBlocks = []\<rparr> of
      (p, rt1, a1) \<Rightarrow>
        p = 4096 \<and> ptr a1 = 4096 \<and> requested rt1 = [48] \<and>
        getPtr (\<lambda>_ _. 4096) rt1 a1 = (p, rt1, a1) \<and>
        alloc a1 16 = (Inl AssertionFailed, a1) \<and>
        free a1 0 16 = (Inl AssertionFailed, a1))"
  using use_after_commit[of "\<lparr>used = 48, peak = 48, alignment = 8, ptr = 0, freeBlocks = []\<rparr>"
           16 0 "\<lambda>_ _. 4096" "\<lparr>requested = []\<rparr>"]
  by (simp add: getPtr_def runtime_alloc_def)

section \<open>Graph store: field lemmas\<close>

text \<open>
  The fields of a graph after each link operation, and the steps of the rewrite passes:
  with them a pass is evaluated on a graph given by what its store holds.
\<close>

lemmas link_defs = addTarget_def removeTarget_def setSource_def addPredecessors_def
  addSuccessors_def removePredecessors_def removeSuccessors_def replaceInput_def

lemma tensor_link_fields:
  "theap (addTarget t op g) = (theap g)(t := (theap g t)\<lparr>targets := targets (theap g t) @ [op]\<rparr>)"
  "theap (removeTarget t op g) =
     (theap g)(t := (theap g t)\<lparr>targets := filter (\<lambda>x. x \<noteq> op) (targets (theap g t))\<rparr>)"
  "theap (setSource t op g) = (theap g)(t := (theap g t)\<lparr>source := Some op\<rparr>)"
  "oheap (addTarget t op g) = oheap g" "oheap (removeTarget t op g) = oheap g"
  "oheap (setSource t op g) = oheap g"
  "tensors (addTarget t op g) = tensors g" "tensors (removeTarget t op g) = tensors g"
  "tensors (setSource t op g) = tensors g"
  "sorted_flag (addTarget t op g) = sorted_flag g" "sorted_flag (removeTarget t op g) = sorted_flag g"
  "sorted_flag (setSource t op g) = sorted_flag g"
  "next_ref (addTarget t op g) = next_ref g" "next_ref (removeTarget t op g) = next_ref g"
  "next_ref (setSource t op g) = next_ref g"
  by (simp_all add: link_defs)

lemma operator_link_fields:
  "oheap (addPredecessors op p g) =
     (oheap g)(op := (oheap g op)\<lparr>predecessors := predecessors (oheap g op) @ [p]\<rparr>)"
  "oheap (addSuccessors op p g) =
     (oheap g)(op := (oheap g op)\<lparr>successors := successors (oheap g op) @ [p]\<rparr>)"
  "oheap (removePredecessors op p g) =
     (oheap g)(op := (oheap g op)\<lparr>predecessors := filter (\<lambda>x. x \<noteq> p) (predecessors (oheap g op))\<rparr>)"
  "oheap (removeSuccessors op p g) =
     (oheap g)(op := (oheap g op)\<lparr>successors := filter (\<lambda>x. x \<noteq> p) (successors (oheap g op))\<rparr>)"
  "oheap (replaceInput op t1 t2 g) =
     (oheap g)(op := (oheap g op)\<lparr>inputs := map (\<lambda>t. if t = t1 then t2 else t) (inputs (oheap g op))\<rparr>)"
  "theap (addPredecessors op p g) = theap g" "theap (addSuccessors op p g) = theap g"
  "theap (removePredecessors op p g) = theap g" "theap (removeSuccessors op p g) = theap g"
  "theap (replaceInput op t1 t2 g) = theap g"
  "tensors (addPredecessors op p g) = tensors g" "tensors (addSuccessors op p g) = tensors g"
  "tensors (removePredecessors op p g) = tensors g" "tensors (removeSuccessors op p g) = tensors g"
  "tensors (replaceInput op t1 t2 g) = tensors g"
  "sorted_flag (addPredecessors op p g) = sorted_flag g" "sorted_flag (addSuccessors op p g) = sorted_flag g"
  "sorted_flag (removePredecessors op p g) = sorted_flag g" "sorted_flag (removeSuccessors op p g) = sorted_flag g"
  "sorted_flag (replaceInput op t1 t2 g) = sorted_flag g"
  "next_ref (addPredecessors op p g) = next_ref g" "next_ref (addSuccessors op p g) = next_ref g"
  "next_ref (removePredecessors op p g) = next_ref g" "next_ref (removeSuccessors op p g) = next_ref g"
  "next_ref (replaceInput op t1 t2 g) = next_ref g"
  by (simp_all add: link_defs)

lemma removal_fields:
  "theap (removeTensor t g) = theap g" "oheap (removeTensor t g) = oheap g"
  "tensors (removeTensor t g) = remove1 t (tensors g)"
  "sorted_flag (removeTensor t g) = sorted_flag g" "next_ref (removeTensor t g) = next_ref g"
  "theap (removeOperator op g) = theap g" "oheap (removeOperator op g) = oheap g"
  "tensors (removeOperator op g) = tensors g" "ops (removeOperator op g) = remove1 op (ops g)"
  "sorted_flag (removeOperator op g) = sorted_flag g" "next_ref (removeOperator op g) = next_ref g"
  by (simp_all add: removeTensor_def removeOperator_def)

lemmas graph_fields = tensor_link_fields operator_link_fields removal_fields ops_links

lemmas graph_steps = addOperatorAndConnect_def replaceOperator_def reconnectTensors_def
  removeOperatorfromGraph_def Let_def at_def getOutput_def

section \<open>Topological sort: results\<close>

lemma ready_iff:
  "list_all (input_ready g f) (inputs (oheap g c)) \<longleftrightarrow> (\<forall>p. depends_on g c p \<longrightarrow> p \<in> f)"
proof
  assume r: "list_all (input_ready g f) (inputs (oheap g c))"
  show "\<forall>p. depends_on g c p \<longrightarrow> p \<in> f"
  proof (intro allI impI)
    fix p assume "depends_on g c p"
    then obtain t where t: "t \<in> set (inputs (oheap g c))" "source (theap g t) = Some p"
      unfolding depends_on_def by blast
    then have "input_ready g f t" using r by (simp add: list_all_iff)
    then show "p \<in> f" using t(2) by (simp add: input_ready_def)
  qed
next
  assume c: "\<forall>p. depends_on g c p \<longrightarrow> p \<in> f"
  show "list_all (input_ready g f) (inputs (oheap g c))"
    unfolding list_all_iff
  proof
    fix t assume t: "t \<in> set (inputs (oheap g c))"
    show "input_ready g f t"
    proof (cases "source (theap g t)")
      case None
      then show ?thesis by (simp add: input_ready_def)
    next
      case (Some p)
      then have "depends_on g c p" using t unfolding depends_on_def by blast
      then show ?thesis using c Some by (simp add: input_ready_def)
    qed
  qed
qed

lemma topo_ordered_snoc:
  assumes "topo_ordered g s" "\<forall>p. depends_on g c p \<longrightarrow> p \<in> set s"
  shows "topo_ordered g (s @ [c])"
  unfolding topo_ordered_def
proof (intro allI impI ballI)
  fix i t p
  assume i: "i < length (s @ [c])" and t: "t \<in> set (inputs (oheap g ((s @ [c]) ! i)))"
    and p: "source (theap g t) = Some p"
  show "\<exists>j<i. (s @ [c]) ! j = p"
  proof (cases "i < length s")
    case True
    then have tin: "t \<in> set (inputs (oheap g (s ! i)))" using t by (simp add: nth_append)
    have "\<exists>j<i. s ! j = p"
      by (rule assms(1)[unfolded topo_ordered_def, rule_format, OF True tin p])
    then obtain j where j: "j < i" "s ! j = p" by blast
    then have "(s @ [c]) ! j = p" using True by (simp add: nth_append)
    then show ?thesis using j(1) by blast
  next
    case False
    then have il: "i = length s" using i by simp
    then have "depends_on g c p" using t p by (auto simp: depends_on_def)
    then have "p \<in> set s" using assms(2) by blast
    then obtain j where j: "j < length s" "s ! j = p" by (auto simp: in_set_conv_nth)
    then have "(s @ [c]) ! j = p" by (simp add: nth_append)
    then show ?thesis using il j(1) by blast
  qed
qed

lemma topo_pass_ordered:
  "topo_pass g xs (s, f, m) = (s', f', m') \<Longrightarrow> f = set s \<Longrightarrow> topo_ordered g s \<Longrightarrow>
     f' = set s' \<and> topo_ordered g s'"
proof (induction xs arbitrary: s f m)
  case Nil
  then show ?case by auto
next
  case (Cons x xs)
  show ?case
  proof (cases "x \<notin> f \<and> list_all (input_ready g f) (inputs (oheap g x))")
    case True
    then have e: "topo_pass g xs (s @ [x], insert x f, True) = (s', f', m')"
      using Cons.prems(1) by simp
    have "\<forall>p. depends_on g x p \<longrightarrow> p \<in> set s"
      using True Cons.prems(2) ready_iff[of g f x] by simp
    with Cons.prems(3) have "topo_ordered g (s @ [x])"
      by (rule topo_ordered_snoc)
    moreover have "insert x f = set (s @ [x])" using Cons.prems(2) by simp
    ultimately show ?thesis using Cons.IH[OF e] by blast
  next
    case False
    then have "topo_pass g xs (s, f, m) = (s', f', m')"
      using Cons.prems(1) by auto
    from Cons.IH[OF this Cons.prems(2,3)] show ?thesis .
  qed
qed

lemma topo_loop_done:
  "\<not> length srt < length (ops g) \<Longrightarrow> topo_loop g srt flags = Some srt"
  by (subst topo_loop.simps) simp

lemma topo_loop_step:
  "length srt < length (ops g) \<Longrightarrow>
   topo_pass g (ops g) (srt, flags, False) = (srt', flags', modified) \<Longrightarrow>
   topo_loop g srt flags = (if \<not> modified then None else topo_loop g srt' flags')"
  by (subst topo_loop.simps) simp

lemma topo_loop_ordered:
  "topo_loop g s f = Some r \<Longrightarrow> f = set s \<Longrightarrow> topo_ordered g s \<Longrightarrow> topo_ordered g r"
proof (induction g s f rule: topo_loop.induct)
  case (1 g srt flags)
  show ?case
  proof (cases "length srt < length (ops g)")
    case False
    then have "r = srt" using "1.prems"(1) topo_loop_done[OF False, of flags] by simp
    then show ?thesis using "1.prems"(3) by simp
  next
    case True
    obtain srt' flags' modified where tp: "topo_pass g (ops g) (srt, flags, False) = (srt', flags', modified)"
      by (cases "topo_pass g (ops g) (srt, flags, False)") auto
    have "(if \<not> modified then None else topo_loop g srt' flags') = Some r"
      using "1.prems"(1) topo_loop_step[OF True tp] by simp
    then have md: "modified" and r: "topo_loop g srt' flags' = Some r"
      by (simp_all split: if_splits)
    from topo_pass_ordered[OF tp "1.prems"(2,3)]
    have i: "flags' = set srt'" "topo_ordered g srt'" by auto
    have nn: "\<not> \<not> modified" using md by simp
    show ?thesis by (rule "1.IH"[OF True tp[symmetric] refl nn r i])
  qed
qed


lemma dep_chain_append_left: "dep_chain g (xs @ ys) \<Longrightarrow> dep_chain g xs"
proof (induction xs rule: dep_chain.induct)
  case (3 g x y rest)
  then show ?case by simp
qed simp_all

lemma dep_chain_last_link: "dep_chain g (xs @ [p, a]) \<Longrightarrow> depends_on g a p"
proof (induction xs)
  case Nil
  then show ?case by simp
next
  case (Cons x xs)
  then show ?case by (cases xs) auto
qed

lemma chain_back:
  "pred_closed g f \<Longrightarrow> dep_chain g (xs @ [z]) \<Longrightarrow> z \<in> f \<Longrightarrow> set xs \<subseteq> f"
proof (induction xs)
  case Nil
  then show ?case by simp
next
  case (Cons x xs)
  have ch: "dep_chain g (xs @ [z])" using Cons.prems(2) by (cases xs) auto
  then have sub: "set xs \<subseteq> f" using Cons.IH Cons.prems(1,3) by blast
  obtain y rest where yr: "xs @ [z] = y # rest" by (cases xs) auto
  then have "depends_on g y x" using Cons.prems(2) by simp
  moreover have "y \<in> f" using yr sub Cons.prems(3) by (cases xs) auto
  ultimately have "x \<in> f" using Cons.prems(1) unfolding pred_closed_def by blast
  then show ?case using sub by simp
qed

lemma cycle_head_not_ready:
  assumes cl: "pred_closed g f" and cy: "has_cycle g cyc"
    and rd: "\<forall>p. depends_on g (hd cyc) p \<longrightarrow> p \<in> f"
  shows "hd cyc \<in> f"
proof -
  have ne: "cyc \<noteq> []" and ch: "dep_chain g (cyc @ [hd cyc])" using cy by (auto simp: has_cycle_def)
  obtain ini p where d: "cyc = ini @ [p]" using ne by (cases cyc rule: rev_cases) auto
  have "dep_chain g (ini @ [p, hd cyc])" using ch d by simp
  then have "depends_on g (hd cyc) p" by (rule dep_chain_last_link)
  then have p: "p \<in> f" using rd by blast
  have "dep_chain g (ini @ [p])" using ch d dep_chain_append_left[of g "ini @ [p]" "[hd cyc]"] by simp
  with cl have "set ini \<subseteq> f" using p by (rule chain_back)
  then have "set cyc \<subseteq> f" using p d by simp
  then show ?thesis using ne by (meson hd_in_set subsetD)
qed

lemma topo_pass_inv:
  "topo_pass g xs (s, f, m) = (s', f', m') \<Longrightarrow> set xs \<subseteq> set (ops g) \<Longrightarrow> pass_inv g s f \<Longrightarrow>
     pass_inv g s' f'"
proof (induction xs arbitrary: s f m)
  case Nil
  then show ?case by auto
next
  case (Cons x xs)
  show ?case
  proof (cases "x \<notin> f \<and> list_all (input_ready g f) (inputs (oheap g x))")
    case True
    then have e: "topo_pass g xs (s @ [x], insert x f, True) = (s', f', m')"
      using Cons.prems(1) by simp
    have rd: "\<forall>p. depends_on g x p \<longrightarrow> p \<in> f" using True ready_iff[of g f x] by simp
    have "pred_closed g (insert x f)"
      using Cons.prems(3) rd unfolding pass_inv_def pred_closed_def by blast
    then have "pass_inv g (s @ [x]) (insert x f)"
      using Cons.prems(2,3) True unfolding pass_inv_def by auto
    then show ?thesis using Cons.IH[OF e] Cons.prems(2) by simp
  next
    case False
    then have "topo_pass g xs (s, f, m) = (s', f', m')"
      using Cons.prems(1) by auto
    then show ?thesis using Cons.IH Cons.prems(2,3) by simp
  qed
qed

lemma topo_pass_avoids:
  "topo_pass g xs (s, f, m) = (s', f', m') \<Longrightarrow> pred_closed g f \<Longrightarrow> has_cycle g cyc \<Longrightarrow>
     hd cyc \<notin> f \<Longrightarrow> hd cyc \<notin> f'"
proof (induction xs arbitrary: s f m)
  case Nil
  then show ?case by auto
next
  case (Cons x xs)
  show ?case
  proof (cases "x \<notin> f \<and> list_all (input_ready g f) (inputs (oheap g x))")
    case True
    then have e: "topo_pass g xs (s @ [x], insert x f, True) = (s', f', m')"
      using Cons.prems(1) by simp
    have rd: "\<forall>p. depends_on g x p \<longrightarrow> p \<in> f" using True ready_iff[of g f x] by simp
    have cl: "pred_closed g (insert x f)"
      using Cons.prems(2) rd unfolding pred_closed_def by blast
    have "x \<noteq> hd cyc"
    proof
      assume "x = hd cyc"
      then have "hd cyc \<in> f" using cycle_head_not_ready[OF Cons.prems(2,3)] rd by simp
      then show False using Cons.prems(4) by simp
    qed
    then have "hd cyc \<notin> insert x f" using Cons.prems(4) by simp
    then show ?thesis using Cons.IH[OF e cl Cons.prems(3)] by simp
  next
    case False
    then have "topo_pass g xs (s, f, m) = (s', f', m')"
      using Cons.prems(1) by auto
    then show ?thesis using Cons.IH Cons.prems(2,3,4) by simp
  qed
qed

lemma topo_loop_inv:
  "topo_loop g s f = Some r \<Longrightarrow> pass_inv g s f \<Longrightarrow>
     distinct r \<and> set r \<subseteq> set (ops g) \<and> length (ops g) \<le> length r"
proof (induction g s f rule: topo_loop.induct)
  case (1 g srt flags)
  show ?case
  proof (cases "length srt < length (ops g)")
    case False
    then have "r = srt" using "1.prems"(1) topo_loop_done[OF False, of flags] by simp
    then show ?thesis using "1.prems"(2) False by (auto simp: pass_inv_def)
  next
    case True
    obtain srt' flags' modified where tp: "topo_pass g (ops g) (srt, flags, False) = (srt', flags', modified)"
      by (cases "topo_pass g (ops g) (srt, flags, False)") auto
    have "(if \<not> modified then None else topo_loop g srt' flags') = Some r"
      using "1.prems"(1) topo_loop_step[OF True tp] by simp
    then have md: "modified" and r: "topo_loop g srt' flags' = Some r"
      by (simp_all split: if_splits)
    have i: "pass_inv g srt' flags'" using topo_pass_inv[OF tp _ "1.prems"(2)] by simp
    have nn: "\<not> \<not> modified" using md by simp
    show ?thesis by (rule "1.IH"[OF True tp[symmetric] refl nn r i])
  qed
qed

lemma topo_loop_avoids:
  "topo_loop g s f = Some r \<Longrightarrow> pass_inv g s f \<Longrightarrow> has_cycle g cyc \<Longrightarrow> hd cyc \<notin> f \<Longrightarrow>
     hd cyc \<notin> set r"
proof (induction g s f rule: topo_loop.induct)
  case (1 g srt flags)
  show ?case
  proof (cases "length srt < length (ops g)")
    case False
    then have "r = srt" using "1.prems"(1) topo_loop_done[OF False, of flags] by simp
    then show ?thesis using "1.prems"(2,4) by (auto simp: pass_inv_def)
  next
    case True
    obtain srt' flags' modified where tp: "topo_pass g (ops g) (srt, flags, False) = (srt', flags', modified)"
      by (cases "topo_pass g (ops g) (srt, flags, False)") auto
    have "(if \<not> modified then None else topo_loop g srt' flags') = Some r"
      using "1.prems"(1) topo_loop_step[OF True tp] by simp
    then have md: "modified" and r: "topo_loop g srt' flags' = Some r"
      by (simp_all split: if_splits)
    have i: "pass_inv g srt' flags'" using topo_pass_inv[OF tp _ "1.prems"(2)] by simp
    have cl: "pred_closed g flags" using "1.prems"(2) by (auto simp: pass_inv_def)
    have a: "hd cyc \<notin> flags'" by (rule topo_pass_avoids[OF tp cl "1.prems"(3,4)])
    have nn: "\<not> \<not> modified" using md by simp
    show ?thesis by (rule "1.IH"[OF True tp[symmetric] refl nn r i "1.prems"(3) a])
  qed
qed

lemma pass_inv_start: "pass_inv g [] {}"
  by (simp add: pass_inv_def pred_closed_def)

lemma topo_loop_cycle_fails:
  assumes "has_cycle g cyc"
  shows "topo_loop g [] {} = None"
proof (cases "topo_loop g [] {}")
  case None
  then show ?thesis .
next
  case (Some r)
  from topo_loop_inv[OF Some pass_inv_start]
  have d: "distinct r" and sub: "set r \<subseteq> set (ops g)" and len: "length (ops g) \<le> length r" by auto
  have a: "hd cyc \<notin> set r" using topo_loop_avoids[OF Some pass_inv_start assms] by simp
  have ain: "hd cyc \<in> set (ops g)" using assms by (simp add: has_cycle_def)
  have "set r \<subset> set (ops g)" using sub a ain by blast
  then have "card (set r) < card (set (ops g))" by (simp add: psubset_card_mono)
  moreover have "card (set r) = length r" using d by (simp add: distinct_card)
  moreover have "card (set (ops g)) \<le> length (ops g)" by (rule card_length)
  ultimately show ?thesis using len by simp
qed

lemma topo_loop_permutes:
  assumes "topo_loop g [] {} = Some r"
  shows "set r = set (ops g) \<and> length r = length (ops g) \<and> distinct r"
proof -
  from topo_loop_inv[OF assms pass_inv_start]
  have d: "distinct r" and sub: "set r \<subseteq> set (ops g)" and len: "length (ops g) \<le> length r" by auto
  have c: "card (set r) = length r" using d by (simp add: distinct_card)
  have "card (set (ops g)) \<le> length (ops g)" by (rule card_length)
  then have "card (set (ops g)) \<le> card (set r)" using len c by simp
  then have e: "set r = set (ops g)" using sub by (simp add: card_seteq)
  then have "length r \<le> length (ops g)" using c card_length[of "ops g"] by simp
  then show ?thesis using e d len by simp
qed

lemma c6_graph_facts:
  "ops c6_graph = [3, 4]"
  "sorted_flag c6_graph = False"
  "inputs (oheap c6_graph 3) = [0]"
  "inputs (oheap c6_graph 4) = [Suc 0]"
  "source (theap c6_graph 0) = None"
  "source (theap c6_graph (Suc 0)) = Some 3"
  unfolding c6_graph_def
  by (simp add: addTensor_def empty_graph_def,
      simp add: addOpWithOutputs_def new_operator_def generic_obj_def,
      simp add: addOperatorAndConnect_def Let_def,
      simp add: link_defs)+

lemma c7_graph_facts:
  "ops c7_graph = [2, 3]"
  "sorted_flag c7_graph = False"
  "inputs (oheap c7_graph 2) = [Suc 0]"
  "inputs (oheap c7_graph 3) = [0]"
  "source (theap c7_graph 0) = Some 2"
  "source (theap c7_graph (Suc 0)) = Some 3"
  unfolding c7_graph_def
  by (simp add: addTensor_def empty_graph_def,
      simp add: addOpWithOutputs_def new_operator_def generic_obj_def,
      simp add: addOperatorAndConnect_def Let_def,
      simp add: link_defs)+

lemma c6_graph_store:
  "tensors c6_graph = [0, 1, 2]"
  "theap c6_graph 0 = \<lparr>dims = [2], fuid = 0, source = None, targets = [3]\<rparr>"
  "theap c6_graph (Suc 0) = \<lparr>dims = [2], fuid = 1, source = Some 3, targets = [4]\<rparr>"
  "theap c6_graph 2 = \<lparr>dims = [2], fuid = 2, source = Some 4, targets = []\<rparr>"
  "oheap c6_graph 3 = (generic_obj [0] [1])\<lparr>successors := [4]\<rparr>"
  "oheap c6_graph 4 = (generic_obj [1] [2])\<lparr>predecessors := [3]\<rparr>"
  unfolding c6_graph_def
  by (simp add: addTensor_def empty_graph_def,
      simp add: addOpWithOutputs_def new_operator_def generic_obj_def,
      simp add: addOperatorAndConnect_def Let_def,
      simp add: link_defs)+

lemma c6_sorted: "topo_sort c6_graph = (True, c6_graph\<lparr>ops := [3, 4], sorted_flag := True\<rparr>)"
  by (simp add: topo_sort_def topo_loop.simps c6_graph_facts input_ready_def)

lemma c6_removed_eq: "c6_removed = c6_graph\<lparr>ops := [4], sorted_flag := True\<rparr>"
  by (simp add: c6_removed_def c6_sorted removeOperator_def)

text \<open>
  On a graph whose sorted flag is unset, a sort that returns true sets the flag and leaves
  an operator list in which every operator at position \<open>i\<close> has, for each input with a
  source, that source at some position \<open>j < i\<close>; the list holds the same operators as
  before, and tensors and objects are untouched. On a graph whose sorted flag is set, the
  sort returns true at once and leaves the graph as it is.
\<close>

theorem topo_sort_orders:
  "(\<not> sorted_flag g \<and> topo_sort g = (True, g') \<longrightarrow>
      sorted_flag g' \<and> topo_ordered g' (ops g') \<and>
      set (ops g') = set (ops g) \<and> length (ops g') = length (ops g) \<and>
      tensors g' = tensors g \<and> theap g' = theap g \<and> oheap g' = oheap g)
   \<and> (sorted_flag g \<longrightarrow> topo_sort g = (True, g))"
proof (rule conjI; rule impI)
  assume h: "\<not> sorted_flag g \<and> topo_sort g = (True, g')"
  then obtain r where r: "topo_loop g [] {} = Some r" and g': "g' = g\<lparr>ops := r, sorted_flag := True\<rparr>"
    by (auto simp: topo_sort_def split: option.splits)
  have "topo_ordered g []" by (simp add: topo_ordered_def)
  then have "topo_ordered g r" using topo_loop_ordered[OF r] by simp
  then have o: "topo_ordered g' (ops g')" by (simp add: g' topo_ordered_def)
  from topo_loop_permutes[OF r] have p: "set r = set (ops g)" "length r = length (ops g)" by auto
  show "sorted_flag g' \<and> topo_ordered g' (ops g') \<and>
      set (ops g') = set (ops g) \<and> length (ops g') = length (ops g) \<and>
      tensors g' = tensors g \<and> theap g' = theap g \<and> oheap g' = oheap g"
    using o p by (simp add: g')
next
  assume "sorted_flag g"
  then show "topo_sort g = (True, g)" by (simp add: topo_sort_def)
qed

theorem topo_sort_orders_chain:
  "\<not> sorted_flag c6_graph \<and> ops c6_graph = [3, 4] \<and>
   topo_sort c6_graph = (True, c6_graph\<lparr>ops := [3, 4], sorted_flag := True\<rparr>) \<and>
   topo_ordered (c6_graph\<lparr>ops := [3, 4], sorted_flag := True\<rparr>) [3, 4] \<and>
   topo_sort (c6_graph\<lparr>ops := [3, 4], sorted_flag := True\<rparr>) =
     (True, c6_graph\<lparr>ops := [3, 4], sorted_flag := True\<rparr>)"
proof -
  let ?g' = "c6_graph\<lparr>ops := [3, 4], sorted_flag := True\<rparr>"
  have a: "\<not> sorted_flag c6_graph \<and> topo_sort c6_graph = (True, ?g')"
    by (simp add: c6_graph_facts c6_sorted)
  from topo_sort_orders[of c6_graph ?g'] a have "topo_ordered ?g' (ops ?g')" by blast
  moreover from topo_sort_orders[of ?g' ?g'] have "topo_sort ?g' = (True, ?g')" by simp
  ultimately show ?thesis using a by (simp add: c6_graph_facts)
qed

text \<open>
  C6 does not hold of the code. \<open>removeOperator\<close> takes an operator out of the list and
  leaves the sorted flag as it is, where \<open>addOperatorAndConnect\<close> and \<open>optimize\<close> clear
  it. Build the chain \<open>P, Q\<close> (a valid graph), sort it, and remove \<open>P\<close>: the flag is
  still set, so \<open>topo_sort\<close> returns true at once on the list \<open>[Q]\<close>, although the input
  of \<open>Q\<close> has the source \<open>P\<close>, which is at no position before \<open>Q\<close>. Had the flag been
  cleared, the same call would have reported failure.
\<close>

theorem topo_sort_trusts_stale_flag:
  "sorted_flag (removeOperator op g) = sorted_flag g \<and>
   checkValid c6_graph = Inr True \<and>
   topo_sort c6_graph = (True, c6_graph\<lparr>ops := [3, 4], sorted_flag := True\<rparr>) \<and>
   sorted_flag c6_removed \<and> ops c6_removed = [4] \<and>
   inputs (oheap c6_removed 4) = [1] \<and> source (theap c6_removed 1) = Some 3 \<and>
   3 \<notin> set (ops c6_removed) \<and>
   topo_sort c6_removed = (True, c6_removed) \<and>
   (\<exists>i<length (ops c6_removed). \<exists>t\<in>set (inputs (oheap c6_removed (ops c6_removed ! i))).
      \<exists>p. source (theap c6_removed t) = Some p \<and> \<not> (\<exists>j<i. ops c6_removed ! j = p)) \<and>
   topo_sort (c6_removed\<lparr>sorted_flag := False\<rparr>) = (False, c6_removed\<lparr>sorted_flag := False\<rparr>)"
proof -
  have r: "sorted_flag (removeOperator op g) = sorted_flag g"
    by (simp add: removeOperator_def)
  have v: "checkValid c6_graph = Inr True"
    by (simp add: checkValid_def c6_graph_facts c6_graph_store generic_obj_def)
  have f: "sorted_flag c6_removed" "ops c6_removed = [4]"
      "inputs (oheap c6_removed 4) = [Suc 0]" "source (theap c6_removed (Suc 0)) = Some 3"
    unfolding c6_removed_eq by (simp_all add: c6_graph_facts)
  have t: "topo_sort c6_removed = (True, c6_removed)"
    using f(1) by (simp add: topo_sort_def)
  have n: "\<exists>i<length (ops c6_removed).
      \<exists>t\<in>set (inputs (oheap c6_removed (ops c6_removed ! i))).
      \<exists>p. source (theap c6_removed t) = Some p \<and> \<not> (\<exists>j<i. ops c6_removed ! j = p)"
    by (rule exI[of _ 0]) (simp add: f)
  have u: "topo_sort (c6_removed\<lparr>sorted_flag := False\<rparr>) =
             (False, c6_removed\<lparr>sorted_flag := False\<rparr>)"
    by (simp add: topo_sort_def topo_loop.simps f input_ready_def)
  show ?thesis using r v c6_sorted f t n u by simp
qed

text \<open>
  C7: on every graph with the sorted flag unset that contains a dependency cycle,
  \<open>topo_sort\<close> returns false and leaves the graph unchanged, so the operator list is as
  before the call and the sorted flag remains false. The two operators whose outputs feed
  each other's inputs are such a graph.
\<close>

theorem topo_sort_rejects_cycle:
  "\<not> sorted_flag g \<and> has_cycle g cyc \<longrightarrow> topo_sort g = (False, g)"
proof
  assume h: "\<not> sorted_flag g \<and> has_cycle g cyc"
  then have "topo_loop g [] {} = None" using topo_loop_cycle_fails[of g cyc] by simp
  then show "topo_sort g = (False, g)" using h by (simp add: topo_sort_def)
qed

theorem topo_sort_rejects_cycle_witness:
  "\<not> sorted_flag c7_graph \<and> ops c7_graph = [2, 3] \<and>
   depends_on c7_graph 3 2 \<and> depends_on c7_graph 2 3 \<and> has_cycle c7_graph [2, 3] \<and>
   topo_sort c7_graph = (False, c7_graph)"
proof -
  have d: "depends_on c7_graph 3 2" "depends_on c7_graph 2 3"
    by (simp_all add: depends_on_def c7_graph_facts)
  then have c: "has_cycle c7_graph [2, 3]"
    by (simp add: has_cycle_def c7_graph_facts)
  have n: "\<not> sorted_flag c7_graph" by (simp add: c7_graph_facts)
  from topo_sort_rejects_cycle[of c7_graph "[2, 3]"] n c
  have "topo_sort c7_graph = (False, c7_graph)" by blast
  then show ?thesis using n c d by (simp add: c7_graph_facts)
qed
section \<open>Graph rewriting: results\<close>

lemma c3_graph_facts:
  "tensors (c3_graph M K N) = [0, 1, 2, 3]"
  "ops (c3_graph M K N) = [4, 5]"
  "sorted_flag (c3_graph M K N) = False"
  "next_ref (c3_graph M K N) = 6"
  "theap (c3_graph M K N) 0 = \<lparr>dims = [M, K], fuid = 0, source = None, targets = [5]\<rparr>"
  "theap (c3_graph M K N) (Suc 0) = \<lparr>dims = [N, K], fuid = 1, source = None, targets = [4]\<rparr>"
  "theap (c3_graph M K N) 2 = \<lparr>dims = [K, N], fuid = 2, source = Some 4, targets = [5]\<rparr>"
  "theap (c3_graph M K N) 3 = \<lparr>dims = [M, N], fuid = 3, source = Some 5, targets = []\<rparr>"
  "oheap (c3_graph M K N) 4 =
     \<lparr>opType = Transpose, inputs = [1], outputs = [2], predecessors = [],
      successors = [5], transA = False, transB = False, permute = [1, 0]\<rparr>"
  "oheap (c3_graph M K N) 5 =
     \<lparr>opType = MatMul, inputs = [0, 2], outputs = [3], predecessors = [4],
      successors = [], transA = False, transB = False, permute = []\<rparr>"
  unfolding c3_graph_def
  by (simp add: addTensor_def empty_graph_def,
      simp add: addOpWithOutputs_def new_operator_def transpose_obj_def matmul_obj_def,
      simp add: addOperatorAndConnect_def Let_def,
      simp add: link_defs)+

lemmas pass_steps = rrt_loop.simps rrt_step_def fuse_loop.simps fuse_step_def fuseA_def fuseB_def
  isLastTwoDimTranspose_def isInversePermutation_def MatmulObj_new_def new_operator_def
  fuseTransposeIntoMatmul_def removeRedundantTranspose_def topo_sort_def topo_loop.simps
  input_ready_def

lemma c3_round1_rrt:
  "removeRedundantTranspose (c3_graph M K N) =
     Inr (False, (c3_graph M K N)\<lparr>ops := [4, 5], sorted_flag := True\<rparr>)"
  by (simp add: pass_steps c3_graph_facts graph_steps graph_fields)

lemma c3_round1_fuse:
  assumes chk: "\<forall>g. dims (theap g 0) = [M, K] \<and> dims (theap g (Suc 0)) = [N, K] \<and>
                    dims (theap g 3) = [M, N] \<longrightarrow> opCheck g (matmul_obj 0 (Suc 0) 3 False True)"
  shows "case fuseTransposeIntoMatmul opCheck ((c3_graph M K N)\<lparr>ops := [4, 5], sorted_flag := True\<rparr>) of
           Inl e \<Rightarrow> False
         | Inr (c, g2) \<Rightarrow>
             c \<and> ops g2 = [6] \<and> tensors g2 = [0, 1, 3] \<and> sorted_flag g2 \<and>
             oheap g2 6 = matmul_obj 0 (Suc 0) 3 False True \<and>
             theap g2 0 = \<lparr>dims = [M, K], fuid = 0, source = None, targets = [6]\<rparr> \<and>
             theap g2 (Suc 0) = \<lparr>dims = [N, K], fuid = 1, source = None, targets = [6]\<rparr> \<and>
             theap g2 3 = \<lparr>dims = [M, N], fuid = 3, source = Some 6, targets = []\<rparr>"
  by (simp add: pass_steps c3_graph_facts graph_steps graph_fields chk[rule_format, unfolded matmul_obj_def] matmul_obj_def)

lemma fused_graph_fixpoint:
  assumes f: "ops g2 = [6]" "sorted_flag g2"
    "oheap g2 6 = matmul_obj 0 (Suc 0) 3 False True"
    "source (theap g2 0) = None" "source (theap g2 (Suc 0)) = None"
  shows "removeRedundantTranspose g2 = Inr (False, g2)"
    and "fuseTransposeIntoMatmul opCheck g2 = Inr (False, g2)"
  by (simp_all add: pass_steps graph_steps graph_fields f matmul_obj_def)

lemma fused_graph_valid:
  assumes f: "ops g2 = [6]" "tensors g2 = [0, 1, 3]"
    "oheap g2 6 = matmul_obj 0 (Suc 0) 3 False True"
    "theap g2 0 = \<lparr>dims = d0, fuid = 0, source = None, targets = [6]\<rparr>"
    "theap g2 (Suc 0) = \<lparr>dims = d1, fuid = 1, source = None, targets = [6]\<rparr>"
    "theap g2 3 = \<lparr>dims = d3, fuid = 3, source = Some 6, targets = []\<rparr>"
  shows "checkValid g2 = Inr True"
  by (simp add: checkValid_def f matmul_obj_def)

text \<open>
  C3: the graph \<open>A: [M,K]\<close>, \<open>B0: [N,K]\<close>, \<open>B = Transpose(B0, [1,0])\<close>,
  \<open>C = MatMul(A, B)\<close> without transposition holds the tensors 0 to 3 and the operators 4
  (the Transpose) and 5 (the MatMul). If the constructor's check accepts the fused MatMul,
  \<open>optimize\<close> returns, after two rounds or more, a graph with exactly one operator, a
  MatMul with inputs \<open>(A, B0)\<close>, \<open>transA\<close> false and \<open>transB\<close> true; the Transpose and
  the tensor \<open>B\<close> are no longer in the graph, the output is the same tensor object \<open>C\<close> as
  before, now produced by the new MatMul, and \<open>checkValid\<close> succeeds.
\<close>

theorem optimize_fuses_right_operand:
  assumes chk: "\<forall>g. dims (theap g 0) = [M, K] \<and> dims (theap g (Suc 0)) = [N, K] \<and>
                    dims (theap g 3) = [M, N] \<longrightarrow> opCheck g (matmul_obj 0 (Suc 0) 3 False True)"
  shows "tensors (c3_graph M K N) = [0, 1, 2, 3] \<and> ops (c3_graph M K N) = [4, 5] \<and>
         map (\<lambda>t. dims (theap (c3_graph M K N) t)) [0, 1, 2, 3] = [[M, K], [N, K], [K, N], [M, N]] \<and>
         oheap (c3_graph M K N) 4 =
           (transpose_obj 1 2 [1, 0])\<lparr>successors := [5]\<rparr> \<and>
         oheap (c3_graph M K N) 5 =
           (matmul_obj 0 2 3 False False)\<lparr>predecessors := [4]\<rparr> \<and>
         (\<exists>g'. optimize (Suc (Suc fuel)) opCheck (c3_graph M K N) = Some (Inr g') \<and>
               ops g' = [6] \<and>
               oheap g' 6 = matmul_obj 0 1 3 False True \<and>
               4 \<notin> set (ops g') \<and> 2 \<notin> set (tensors g') \<and>
               tensors g' = [0, 1, 3] \<and>
               theap g' 3 = (theap (c3_graph M K N) 3)\<lparr>source := Some 6\<rparr> \<and>
               checkValid g' = Inr True)"
proof -
  let ?g0 = "c3_graph M K N"
  let ?g1 = "?g0\<lparr>ops := [4, 5], sorted_flag := True\<rparr>"
  obtain c g2 where r: "fuseTransposeIntoMatmul opCheck ?g1 = Inr (c, g2)"
    using c3_round1_fuse[where opCheck = opCheck and M = M and K = K and N = N, OF chk]
    by (cases "fuseTransposeIntoMatmul opCheck ?g1") auto
  have f: "c" "ops g2 = [6]" "tensors g2 = [0, 1, 3]" "sorted_flag g2"
      "oheap g2 6 = matmul_obj 0 (Suc 0) 3 False True"
      "theap g2 0 = \<lparr>dims = [M, K], fuid = 0, source = None, targets = [6]\<rparr>"
      "theap g2 (Suc 0) = \<lparr>dims = [N, K], fuid = 1, source = None, targets = [6]\<rparr>"
      "theap g2 3 = \<lparr>dims = [M, N], fuid = 3, source = Some 6, targets = []\<rparr>"
    using c3_round1_fuse[where opCheck = opCheck and M = M and K = K and N = N, OF chk] r by simp_all
  have s: "source (theap g2 0) = None" "source (theap g2 (Suc 0)) = None"
    using f(6,7) by simp_all
  note fxp = fused_graph_fixpoint[OF f(2) f(4) f(5) s]
  have "optimize_loop (Suc (Suc fuel)) opCheck ?g0 = Some (Inr g2)"
    by (simp add: c3_round1_rrt r f(1) fxp)
  then have o: "optimize (Suc (Suc fuel)) opCheck ?g0 = Some (Inr (g2\<lparr>sorted_flag := False\<rparr>))"
    by (simp add: optimize_def)
  have v: "checkValid (g2\<lparr>sorted_flag := False\<rparr>) = Inr True"
    by (rule fused_graph_valid[where ?d0.0 = "[M, K]" and ?d1.0 = "[N, K]" and ?d3.0 = "[M, N]"])
       (simp_all add: f)
  have post: "\<exists>g'. optimize (Suc (Suc fuel)) opCheck ?g0 = Some (Inr g') \<and>
               ops g' = [6] \<and>
               oheap g' 6 = matmul_obj 0 1 3 False True \<and>
               4 \<notin> set (ops g') \<and> 2 \<notin> set (tensors g') \<and>
               tensors g' = [0, 1, 3] \<and>
               theap g' 3 = (theap ?g0 3)\<lparr>source := Some 6\<rparr> \<and>
               checkValid g' = Inr True"
    using o v f by (intro exI[of _ "g2\<lparr>sorted_flag := False\<rparr>"]) (simp add: c3_graph_facts)
  have pre: "tensors ?g0 = [0, 1, 2, 3]" "ops ?g0 = [4, 5]"
      "map (\<lambda>t. dims (theap ?g0 t)) [0, 1, 2, 3] = [[M, K], [N, K], [K, N], [M, N]]"
      "oheap ?g0 4 = (transpose_obj 1 2 [1, 0])\<lparr>successors := [5]\<rparr>"
      "oheap ?g0 5 = (matmul_obj 0 2 3 False False)\<lparr>predecessors := [4]\<rparr>"
    by (simp_all add: c3_graph_facts transpose_obj_def matmul_obj_def)
  show ?thesis using pre post by blast
qed

lemma matmul_shape_check_fused:
  "\<forall>g. dims (theap g 0) = [M, K] \<and> dims (theap g (Suc 0)) = [N, K] \<and>
       dims (theap g 3) = [M, N] \<longrightarrow> matmul_shape_check g (matmul_obj 0 (Suc 0) 3 False True)"
  by (simp add: matmul_shape_check_def matmul_obj_def MatmulObj_inferShape_def infer_broadcast_def)

theorem optimize_fuses_right_operand_witness:
  "\<exists>g'. optimize 2 matmul_shape_check (c3_graph 2 3 4) = Some (Inr g') \<and>
        ops g' = [6] \<and> oheap g' 6 = matmul_obj 0 1 3 False True \<and>
        tensors g' = [0, 1, 3] \<and> checkValid g' = Inr True"
proof -
  have "\<exists>g'. optimize (Suc (Suc 0)) matmul_shape_check (c3_graph 2 3 4) = Some (Inr g') \<and>
               ops g' = [6] \<and>
               oheap g' 6 = matmul_obj 0 1 3 False True \<and>
               4 \<notin> set (ops g') \<and> 2 \<notin> set (tensors g') \<and>
               tensors g' = [0, 1, 3] \<and>
               theap g' 3 = (theap (c3_graph 2 3 4) 3)\<lparr>source := Some 6\<rparr> \<and>
               checkValid g' = Inr True"
    using optimize_fuses_right_operand[where opCheck = matmul_shape_check and M = 2 and K = 3 and N = 4 and fuel = 0, OF matmul_shape_check_fused]
    by blast
  then show ?thesis by (auto simp: eval_nat_numeral)
qed

lemma c1_graph_facts:
  "tensors c1_graph = [0, 1, 2, 3]"
  "ops c1_graph = [4, 5]"
  "sorted_flag c1_graph = False"
  "next_ref c1_graph = 6"
  "theap c1_graph 0 = \<lparr>dims = [2, 3], fuid = 0, source = None, targets = [4]\<rparr>"
  "theap c1_graph (Suc 0) = \<lparr>dims = [3, 2], fuid = 1, source = Some 4, targets = [5]\<rparr>"
  "theap c1_graph 2 = \<lparr>dims = [2, 4], fuid = 2, source = None, targets = [5]\<rparr>"
  "theap c1_graph 3 = \<lparr>dims = [3, 4], fuid = 3, source = Some 5, targets = []\<rparr>"
  "oheap c1_graph 4 =
     \<lparr>opType = Transpose, inputs = [0], outputs = [1], predecessors = [],
      successors = [5], transA = False, transB = False, permute = [1, 0]\<rparr>"
  "oheap c1_graph 5 =
     \<lparr>opType = MatMul, inputs = [1, 2], outputs = [3], predecessors = [4],
      successors = [], transA = False, transB = False, permute = []\<rparr>"
  unfolding c1_graph_def
  by (simp add: addTensor_def empty_graph_def,
      simp add: addOpWithOutputs_def new_operator_def transpose_obj_def matmul_obj_def,
      simp add: addOperatorAndConnect_def Let_def,
      simp add: link_defs)+

lemma c2_graph_facts:
  "tensors c2_graph = [0, 1, 2]"
  "ops c2_graph = [3, 4]"
  "sorted_flag c2_graph = False"
  "next_ref c2_graph = 5"
  "theap c2_graph 0 = \<lparr>dims = [2, 3, 4], fuid = 0, source = None, targets = [3]\<rparr>"
  "theap c2_graph (Suc 0) = \<lparr>dims = [4, 2, 3], fuid = 1, source = Some 3, targets = [4]\<rparr>"
  "theap c2_graph 2 = \<lparr>dims = [2, 3, 4], fuid = 2, source = Some 4, targets = []\<rparr>"
  "oheap c2_graph 3 =
     \<lparr>opType = Transpose, inputs = [0], outputs = [1], predecessors = [],
      successors = [4], transA = False, transB = False, permute = [2, 0, 1]\<rparr>"
  "oheap c2_graph 4 =
     \<lparr>opType = Transpose, inputs = [1], outputs = [2], predecessors = [3],
      successors = [], transA = False, transB = False, permute = [1, 2, 0]\<rparr>"
  unfolding c2_graph_def
  by (simp add: addTensor_def empty_graph_def,
      simp add: addOpWithOutputs_def new_operator_def transpose_obj_def,
      simp add: addOperatorAndConnect_def Let_def,
      simp add: link_defs)+

lemma c1_graph_valid: "checkValid c1_graph = Inr True"
  by (simp add: checkValid_def c1_graph_facts)

lemma c2_graph_valid: "checkValid c2_graph = Inr True"
  by (simp add: checkValid_def c2_graph_facts)

lemma c1_fuse:
  "case fuseTransposeIntoMatmul matmul_shape_check c1_graph of
     Inl e \<Rightarrow> False
   | Inr (c, g') \<Rightarrow>
       c \<and> ops g' = [6] \<and> tensors g' = [0, 2, 3] \<and>
       oheap g' 6 = matmul_obj 0 2 3 True False \<and>
       theap g' 0 = \<lparr>dims = [2, 3], fuid = 0, source = None, targets = [4]\<rparr> \<and>
       theap g' 2 = \<lparr>dims = [2, 4], fuid = 2, source = None, targets = [6]\<rparr> \<and>
       theap g' 3 = \<lparr>dims = [3, 4], fuid = 3, source = Some 6, targets = []\<rparr>"
  by (simp add: pass_steps c1_graph_facts graph_steps graph_fields matmul_obj_def
        matmul_shape_check_def MatmulObj_inferShape_def infer_broadcast_def)

lemma c2_rrt:
  "case removeRedundantTranspose c2_graph of
     Inl e \<Rightarrow> False
   | Inr (c, g') \<Rightarrow>
       c \<and> ops g' = [] \<and> tensors g' = [0] \<and> sorted_flag g' \<and>
       theap g' 0 = \<lparr>dims = [2, 3, 4], fuid = 0, source = None, targets = []\<rparr>"
  by (simp add: pass_steps c2_graph_facts graph_steps graph_fields)

text \<open>
  C1 does not hold of the code. In the left-operand scenario the MatMul's input \<open>A\<close> is
  produced by a Transpose that swaps the last two dimensions and has the MatMul as its only
  consumer, and the graph is valid. \<open>fuseTransposeIntoMatmul\<close> replaces the MatMul by
  operator 6 reading \<open>X\<close> with \<open>transA\<close> set and removes the Transpose and \<open>A\<close>, but the
  targets of \<open>X\<close> are left as they were: they still hold the removed Transpose and do not
  hold the new MatMul, and \<open>checkValid\<close> fails its assertion. The branch for the right
  operand updates the targets of the Transpose's input before and after constructing.
\<close>

theorem fuse_left_operand_stale_targets:
  "tensors c1_graph = [0, 1, 2, 3] \<and> ops c1_graph = [4, 5] \<and>
   oheap c1_graph 4 = (transpose_obj 0 1 [1, 0])\<lparr>successors := [5]\<rparr> \<and>
   oheap c1_graph 5 = (matmul_obj 1 2 3 False False)\<lparr>predecessors := [4]\<rparr> \<and>
   source (theap c1_graph 1) = Some 4 \<and> targets (theap c1_graph 1) = [5] \<and>
   isLastTwoDimTranspose [1, 0] (length (dims (theap c1_graph 1))) = Inr True \<and>
   checkValid c1_graph = Inr True \<and>
   (\<exists>g'. fuseTransposeIntoMatmul matmul_shape_check c1_graph = Inr (True, g') \<and>
         ops g' = [6] \<and> tensors g' = [0, 2, 3] \<and>
         oheap g' 6 = matmul_obj 0 2 3 True False \<and>
         targets (theap g' 0) = [4] \<and> 4 \<notin> set (ops g') \<and>
         0 \<in> set (inputs (oheap g' 6)) \<and> 6 \<notin> set (targets (theap g' 0)) \<and>
         checkValid g' = Inl AssertionFailed)"
proof -
  obtain c g' where r: "fuseTransposeIntoMatmul matmul_shape_check c1_graph = Inr (c, g')"
    using c1_fuse by (cases "fuseTransposeIntoMatmul matmul_shape_check c1_graph") auto
  have f: "c" "ops g' = [6]" "tensors g' = [0, 2, 3]"
      "oheap g' 6 = matmul_obj 0 2 3 True False"
      "theap g' 0 = \<lparr>dims = [2, 3], fuid = 0, source = None, targets = [4]\<rparr>"
    using c1_fuse r by simp_all
  have v: "checkValid g' = Inl AssertionFailed"
    by (simp add: checkValid_def f)
  have post: "\<exists>g'. fuseTransposeIntoMatmul matmul_shape_check c1_graph = Inr (True, g') \<and>
         ops g' = [6] \<and> tensors g' = [0, 2, 3] \<and>
         oheap g' 6 = matmul_obj 0 2 3 True False \<and>
         targets (theap g' 0) = [4] \<and> 4 \<notin> set (ops g') \<and>
         0 \<in> set (inputs (oheap g' 6)) \<and> 6 \<notin> set (targets (theap g' 0)) \<and>
         checkValid g' = Inl AssertionFailed"
    using r f v by (intro exI[of _ g']) (simp add: matmul_obj_def)
  have pre: "tensors c1_graph = [0, 1, 2, 3]" "ops c1_graph = [4, 5]"
      "oheap c1_graph 4 = (transpose_obj 0 1 [1, 0])\<lparr>successors := [5]\<rparr>"
      "oheap c1_graph 5 = (matmul_obj 1 2 3 False False)\<lparr>predecessors := [4]\<rparr>"
      "source (theap c1_graph 1) = Some 4" "targets (theap c1_graph 1) = [5]"
      "isLastTwoDimTranspose [1, 0] (length (dims (theap c1_graph 1))) = Inr True"
    by (simp_all add: c1_graph_facts transpose_obj_def matmul_obj_def isLastTwoDimTranspose_def)
  show ?thesis using pre post c1_graph_valid by blast
qed

lemma empty_graph_fixpoint:
  assumes f: "ops g = []" "sorted_flag g"
  shows "removeRedundantTranspose g = Inr (False, g)"
    and "fuseTransposeIntoMatmul opCheck g = Inr (False, g)"
  by (simp_all add: pass_steps f)

text \<open>
  C2 does not hold of the code. In the inverse-transpose scenario the first Transpose has
  the second as the only consumer of its output, the permutations are inverse to each
  other, and the graph is valid. \<open>removeRedundantTranspose\<close> removes both operators and
  the tensors \<open>y\<close> and \<open>z\<close>, and \<open>reconnectTensors\<close> empties the targets of \<open>x\<close>: the
  tensor \<open>x\<close> stays in the tensor list with no source and no target, and \<open>checkValid\<close>
  fails its first assertion, on the result of the pass and on the result of \<open>optimize\<close>.
\<close>

theorem inverse_transposes_leave_orphan:
  "tensors c2_graph = [0, 1, 2] \<and> ops c2_graph = [3, 4] \<and>
   oheap c2_graph 3 = (transpose_obj 0 1 [2, 0, 1])\<lparr>successors := [4]\<rparr> \<and>
   oheap c2_graph 4 = (transpose_obj 1 2 [1, 2, 0])\<lparr>predecessors := [3]\<rparr> \<and>
   targets (theap c2_graph 1) = [4] \<and> targets (theap c2_graph 2) = [] \<and>
   isInversePermutation [2, 0, 1] [1, 2, 0] = Inr True \<and>
   checkValid c2_graph = Inr True \<and>
   (\<exists>g'. removeRedundantTranspose c2_graph = Inr (True, g') \<and>
         optimize (Suc (Suc fuel)) opCheck c2_graph = Some (Inr (g'\<lparr>sorted_flag := False\<rparr>)) \<and>
         ops g' = [] \<and> tensors g' = [0] \<and>
         targets (theap g' 0) = [] \<and> source (theap g' 0) = None \<and>
         checkValid g' = Inl AssertionFailed \<and>
         checkValid (g'\<lparr>sorted_flag := False\<rparr>) = Inl AssertionFailed)"
proof -
  obtain c g' where r: "removeRedundantTranspose c2_graph = Inr (c, g')"
    using c2_rrt by (cases "removeRedundantTranspose c2_graph") auto
  have f: "c" "ops g' = []" "tensors g' = [0]" "sorted_flag g'"
      "theap g' 0 = \<lparr>dims = [2, 3, 4], fuid = 0, source = None, targets = []\<rparr>"
    using c2_rrt r by simp_all
  have v: "checkValid g' = Inl AssertionFailed"
      "checkValid (g'\<lparr>sorted_flag := False\<rparr>) = Inl AssertionFailed"
    by (simp_all add: checkValid_def f)
  note fxp = empty_graph_fixpoint[OF f(2) f(4)]
  have "optimize_loop (Suc (Suc fuel)) opCheck c2_graph = Some (Inr g')"
    by (simp add: r f(1) fxp)
  then have o: "optimize (Suc (Suc fuel)) opCheck c2_graph = Some (Inr (g'\<lparr>sorted_flag := False\<rparr>))"
    by (simp add: optimize_def)
  have post: "\<exists>g'. removeRedundantTranspose c2_graph = Inr (True, g') \<and>
         optimize (Suc (Suc fuel)) opCheck c2_graph = Some (Inr (g'\<lparr>sorted_flag := False\<rparr>)) \<and>
         ops g' = [] \<and> tensors g' = [0] \<and>
         targets (theap g' 0) = [] \<and> source (theap g' 0) = None \<and>
         checkValid g' = Inl AssertionFailed \<and>
         checkValid (g'\<lparr>sorted_flag := False\<rparr>) = Inl AssertionFailed"
    using r f v o by (intro exI[of _ g']) simp
  have pre: "tensors c2_graph = [0, 1, 2]" "ops c2_graph = [3, 4]"
      "oheap c2_graph 3 = (transpose_obj 0 1 [2, 0, 1])\<lparr>successors := [4]\<rparr>"
      "oheap c2_graph 4 = (transpose_obj 1 2 [1, 2, 0])\<lparr>predecessors := [3]\<rparr>"
      "targets (theap c2_graph 1) = [4]" "targets (theap c2_graph 2) = []"
      "isInversePermutation [2, 0, 1] [1, 2, 0] = Inr True"
    by (simp_all add: c2_graph_facts transpose_obj_def isInversePermutation_def upt_rec)
  show ?thesis using pre post c2_graph_valid by blast
qed

end
